theory Spec2Isabelle
  imports Main "HOL-Library.AList"
begin

section \<open>Alias collection for restricted SQL queries\<close>

text \<open>
  A shallow embedding of \<^verbatim>\<open>heimdallm/bifrosts/sql/visitors/aliases.py\<close>: the
  per-query alias scopes (\<^verbatim>\<open>_QueryAliases\<close>) and the visitor that fills them
  (\<^verbatim>\<open>AliasCollector\<close>). Python objects that are mutated after they were stored
  (the \<^verbatim>\<open>FqColumn\<close> members of the column sets) live in an explicit heap and
  are referred to by address; dictionaries are association lists read with
  \<^const>\<open>map_of\<close>; every exception is a value that carries the collector as it was when
  the exception was raised.
\<close>

subsection \<open>Parse tree\<close>

type_synonym uuid = nat

text \<open>
  The upward view of a node: \<^verbatim>\<open>p.data\<close>, \<^verbatim>\<open>p.meta.id\<close> and
  \<^verbatim>\<open>p.meta.parent\<close> of each ancestor. The chain is finite because the tree is.
\<close>

datatype pnode = PNode (pdata: string) (pid: uuid) (pparent: "pnode option")

datatype meta = Meta (meta_id: uuid) (meta_parent: "pnode option")

text \<open>The downward view: a token (a leaf string) or a tree with a rule name, children and meta.\<close>

datatype tree = Token string | Tree string "tree list" meta

datatype error =
    RuntimeError string
  | AttributeError
  | ValueError
  | IdentifierError string

subsection \<open>Scopes and the collector\<close>

text \<open>
  Modelled from the spec: \<^verbatim>\<open>FqColumn\<close> is imported from \<^verbatim>\<open>..common\<close>,
  which is not part of the sources at hand. It is a pair of a table and a column name, equal
  by value, whose \<^verbatim>\<open>table\<close> field can be assigned.
\<close>

record FqColumn =
  table :: string
  column :: string

type_synonym addr = nat

text \<open>
  \<^verbatim>\<open>_QueryAliases\<close>. A column set is a list of addresses of \<^verbatim>\<open>FqColumn\<close>
  objects; \<open>None\<close> is Python's \<^verbatim>\<open>None\<close>.
\<close>

record QueryAliases =
  aliased_tables :: "(string \<times> string) list"
  aliased_columns :: "(string \<times> addr list option) list"
  qa_selected_table :: "string option"
  subquery_aliases :: "(string \<times> uuid) list"

definition new_QueryAliases :: QueryAliases where
  "new_QueryAliases =
     \<lparr>aliased_tables = [], aliased_columns = [], qa_selected_table = None,
      subquery_aliases = []\<rparr>"

text \<open>
  \<^verbatim>\<open>AliasCollector\<close>, together with the heap of \<^verbatim>\<open>FqColumn\<close> objects it has
  allocated. \<open>self_selected_table\<close> is the attribute \<^verbatim>\<open>self._selected_table\<close> of
  the collector itself, absent (\<open>None\<close>) until it is first assigned.
\<close>

record AliasCollector =
  query_aliases :: "(uuid \<times> QueryAliases) list"
  reserved_keywords :: "string set"
  self_selected_table :: "string option"
  heap :: "FqColumn list"

definition new_AliasCollector :: "string set \<Rightarrow> AliasCollector" where
  "new_AliasCollector kw =
     \<lparr>query_aliases = [], reserved_keywords = kw, self_selected_table = None, heap = []\<rparr>"

type_synonym 'a result = "(error \<times> AliasCollector) + 'a"

text \<open>
  \<^verbatim>\<open>get_identifier\<close> and \<^verbatim>\<open>is_count_function\<close> come from
  \<^verbatim>\<open>..utils.identifier\<close>, which is not part of the sources at hand: every
  operation below takes them as parameters. \<^verbatim>\<open>get_identifier\<close> may raise.
\<close>

type_synonym get_identifier_t = "tree \<Rightarrow> string set \<Rightarrow> error + string"
type_synonym is_count_function_t = "tree \<Rightarrow> bool"

subsection \<open>Dictionary and set primitives\<close>

definition setdefault :: "'k \<Rightarrow> 'v \<Rightarrow> ('k \<times> 'v) list \<Rightarrow> ('k \<times> 'v) list" where
  "setdefault k v d = (case map_of d k of Some _ \<Rightarrow> d | None \<Rightarrow> d @ [(k, v)])"

text \<open>\<^verbatim>\<open>d.get(k, default)\<close>.\<close>

definition dict_get :: "('k \<times> 'v) list \<Rightarrow> 'k \<Rightarrow> 'v \<Rightarrow> 'v" where
  "dict_get d k dflt = (case map_of d k of Some v \<Rightarrow> v | None \<Rightarrow> dflt)"

text \<open>
  The reference \<^verbatim>\<open>aliases\<close> that \<^verbatim>\<open>_alias_scope\<close> returns is the registry key
  of the scope: reading through it looks the registry up, writing through it replaces the
  registered object. \<^verbatim>\<open>_alias_scope\<close> has registered the key before either happens.
\<close>

definition the_scope :: "AliasCollector \<Rightarrow> uuid \<Rightarrow> QueryAliases" where
  "the_scope s i = (case map_of (query_aliases s) i of Some q \<Rightarrow> q | None \<Rightarrow> new_QueryAliases)"

definition put_scope :: "uuid \<Rightarrow> QueryAliases \<Rightarrow> AliasCollector \<Rightarrow> AliasCollector" where
  "put_scope i q s = s\<lparr>query_aliases := AList.update i q (query_aliases s)\<rparr>"

text \<open>
  \<^verbatim>\<open>composite_columns.add(FqColumn(table=..., column=...))\<close>: the object is
  allocated, then joins the set unless a member equal to it (by value) is there. Membership
  is tested on what the members hold now. (A hash set that does not re-index a member
  rewritten by the backfill may take an equal column in as a second object; the columns the
  set denotes, which is all that is read below, are the same.)
\<close>

definition set_add :: "FqColumn list \<Rightarrow> addr list \<Rightarrow> FqColumn \<Rightarrow> FqColumn list \<times> addr list" where
  "set_add h refs c =
     (h @ [c], if c \<in> set (map (nth h) refs) then refs else refs @ [length h])"

text \<open>
  \<^verbatim>\<open>Tree.find_data\<close> of the parser library: the subtrees, the tree itself
  included, that carry the rule name. They are listed in document order here; the library
  iterates them bottom-up, which changes the order in which the columns of one expression
  are allocated and which malformed reference raises first, not which columns are added.
\<close>

fun subtrees :: "tree \<Rightarrow> tree list" where
  "subtrees (Token t) = []"
| "subtrees (Tree d cs m) = Tree d cs m # concat (map subtrees cs)"

fun has_data :: "string \<Rightarrow> tree \<Rightarrow> bool" where
  "has_data d (Token t) = False"
| "has_data d (Tree d' cs m) = (d' = d)"

definition find_data :: "string \<Rightarrow> tree \<Rightarrow> tree list" where
  "find_data d t = filter (has_data d) (subtrees t)"

subsection \<open>The collector's methods\<close>

text \<open>The loop of \<^verbatim>\<open>_alias_scope\<close>: walk up from \<^verbatim>\<open>node.meta.parent\<close>.\<close>

fun find_scope :: "pnode option \<Rightarrow> uuid option" where
  "find_scope None = None"
| "find_scope (Some (PNode d i p)) = (if d = ''full_query'' then Some i else find_scope p)"

definition alias_scope :: "AliasCollector \<Rightarrow> tree \<Rightarrow> (uuid \<times> AliasCollector) result" where
  "alias_scope s node =
     (case node of
        Token _ \<Rightarrow> Inl (AttributeError, s)
      | Tree _ _ m \<Rightarrow>
          (case find_scope (meta_parent m) of
             None \<Rightarrow> Inl (RuntimeError ''could not find wrapping query for node'', s)
           | Some i \<Rightarrow>
               Inr (i, s\<lparr>query_aliases := setdefault i new_QueryAliases (query_aliases s)\<rparr>)))"

definition resolve_table :: "AliasCollector \<Rightarrow> tree \<Rightarrow> string \<Rightarrow> (string \<times> AliasCollector) result" where
  "resolve_table s node tbl =
     (case alias_scope s node of
        Inl x \<Rightarrow> Inl x
      | Inr (i, s1) \<Rightarrow> Inr (dict_get (aliased_tables (the_scope s1 i)) tbl tbl, s1))"

definition selected_table :: "get_identifier_t \<Rightarrow> AliasCollector \<Rightarrow> tree \<Rightarrow> AliasCollector result" where
  "selected_table get_identifier s node =
     (case get_identifier node (reserved_keywords s) of
        Inl e \<Rightarrow> Inl (e, s)
      | Inr t \<Rightarrow> Inr (s\<lparr>self_selected_table := Some t\<rparr>))"

definition full_query :: "AliasCollector \<Rightarrow> tree \<Rightarrow> AliasCollector result" where
  "full_query s node =
     (case node of
        Token _ \<Rightarrow> Inl (AttributeError, s)
      | Tree _ _ m \<Rightarrow>
          Inr (s\<lparr>query_aliases := setdefault (meta_id m) new_QueryAliases (query_aliases s)\<rparr>))"

text \<open>The backfill loops of \<^verbatim>\<open>aliased_table\<close>, innermost first.\<close>

definition backfill_column :: "string \<Rightarrow> string \<Rightarrow> FqColumn \<Rightarrow> FqColumn" where
  "backfill_column alias table_name c = (if table c = alias then c\<lparr>table := table_name\<rparr> else c)"

definition backfill_set :: "string \<Rightarrow> string \<Rightarrow> addr list \<Rightarrow> FqColumn list \<Rightarrow> FqColumn list" where
  "backfill_set alias table_name refs h =
     fold (\<lambda>a h. h[a := backfill_column alias table_name (h ! a)]) refs h"

definition backfill ::
  "string \<Rightarrow> string \<Rightarrow> (string \<times> addr list option) list \<Rightarrow> FqColumn list \<Rightarrow> FqColumn list" where
  "backfill alias table_name cols h =
     fold (\<lambda>(k, fq_columns) h.
             (case fq_columns of
                None \<Rightarrow> h
              | Some refs \<Rightarrow> if refs = [] then h else backfill_set alias table_name refs h))
          cols h"

definition aliased_table :: "get_identifier_t \<Rightarrow> AliasCollector \<Rightarrow> tree \<Rightarrow> AliasCollector result" where
  "aliased_table get_identifier s node =
     (case node of
        Token _ \<Rightarrow> Inl (AttributeError, s)
      | Tree _ cs _ \<Rightarrow>
          (case cs of
             [table_node, as_token, alias_node] \<Rightarrow>
               (case get_identifier table_node (reserved_keywords s) of
                  Inl e \<Rightarrow> Inl (e, s)
                | Inr table_name \<Rightarrow>
                    (case get_identifier alias_node (reserved_keywords s) of
                       Inl e \<Rightarrow> Inl (e, s)
                     | Inr alias \<Rightarrow>
                         (case alias_scope s node of
                            Inl x \<Rightarrow> Inl x
                          | Inr (i, s1) \<Rightarrow>
                              (let aliases = the_scope s1 i;
                                   aliases' = aliases\<lparr>aliased_tables :=
                                     AList.update alias table_name (aliased_tables aliases)\<rparr>;
                                   s2 = put_scope i aliases' s1
                               in Inr (s2\<lparr>heap :=
                                     backfill alias table_name (aliased_columns aliases') (heap s2)\<rparr>)))))
           | _ \<Rightarrow> Inl (ValueError, s)))"

definition derived_table :: "get_identifier_t \<Rightarrow> AliasCollector \<Rightarrow> tree \<Rightarrow> AliasCollector result" where
  "derived_table get_identifier s node =
     (case node of
        Token _ \<Rightarrow> Inl (AttributeError, s)
      | Tree _ cs _ \<Rightarrow>
          (case cs of
             [subquery, as_token, alias_node] \<Rightarrow>
               (case get_identifier alias_node (reserved_keywords s) of
                  Inl e \<Rightarrow> Inl (e, s)
                | Inr alias_name \<Rightarrow>
                    (case alias_scope s node of
                       Inl x \<Rightarrow> Inl x
                     | Inr (i, s1) \<Rightarrow>
                         (case subquery of
                            Token _ \<Rightarrow> Inl (AttributeError, s1)
                          | Tree _ _ m \<Rightarrow>
                              (let aliases = the_scope s1 i
                               in Inr (put_scope i
                                    (aliases\<lparr>subquery_aliases :=
                                       AList.update alias_name (meta_id m) (subquery_aliases aliases)\<rparr>)
                                    s1)))))
           | _ \<Rightarrow> Inl (ValueError, s)))"

text \<open>
  \<^verbatim>\<open>aliases._aliased_columns[alias_name]\<close> on the \<^verbatim>\<open>defaultdict(set)\<close>: a
  missing key is first bound to a new empty set.
\<close>

definition columns_getitem :: "uuid \<Rightarrow> string \<Rightarrow> AliasCollector \<Rightarrow> addr list option \<times> AliasCollector" where
  "columns_getitem i alias_name s =
     (let aliases = the_scope s i
      in case map_of (aliased_columns aliases) alias_name of
           Some v \<Rightarrow> (v, s)
         | None \<Rightarrow>
             (Some [],
              put_scope i (aliases\<lparr>aliased_columns :=
                 aliased_columns aliases @ [(alias_name, Some [])]\<rparr>) s))"

text \<open>\<^verbatim>\<open>aliases._aliased_columns[alias_name] = v\<close>.\<close>

definition columns_setitem :: "uuid \<Rightarrow> string \<Rightarrow> addr list option \<Rightarrow> AliasCollector \<Rightarrow> AliasCollector" where
  "columns_setitem i alias_name v s =
     (let aliases = the_scope s i
      in put_scope i (aliases\<lparr>aliased_columns :=
           AList.update alias_name v (aliased_columns aliases)\<rparr>) s)"

text \<open>
  The \<^verbatim>\<open>for fq_column_node in value_node.find_data("fq_column")\<close> loop of
  \<^verbatim>\<open>aliased_column\<close>; the flag is \<^verbatim>\<open>inserted_fq_alias\<close>.
\<close>

fun column_loop ::
  "get_identifier_t \<Rightarrow> tree \<Rightarrow> uuid \<Rightarrow> string \<Rightarrow> tree list \<Rightarrow> AliasCollector \<Rightarrow> bool
   \<Rightarrow> (bool \<times> AliasCollector) result" where
  "column_loop get_identifier node i alias_name [] s inserted_fq_alias =
     Inr (inserted_fq_alias, s)"
| "column_loop get_identifier node i alias_name (fq_column_node # rest) s inserted_fq_alias =
     (case fq_column_node of
        Token _ \<Rightarrow> Inl (AttributeError, s)
      | Tree _ cs _ \<Rightarrow>
          (case cs of
             [table_node, column_node] \<Rightarrow>
               (case get_identifier table_node (reserved_keywords s) of
                  Inl e \<Rightarrow> Inl (e, s)
                | Inr table_name \<Rightarrow>
                    (case get_identifier column_node (reserved_keywords s) of
                       Inl e \<Rightarrow> Inl (e, s)
                     | Inr column_name \<Rightarrow>
                         (case resolve_table s node table_name of
                            Inl x \<Rightarrow> Inl x
                          | Inr (table_name', s1) \<Rightarrow>
                              (case columns_getitem i alias_name s1 of
                                 (None, s2) \<Rightarrow> Inl (AttributeError, s2)
                               | (Some refs, s2) \<Rightarrow>
                                   (let (h, refs') =
                                          set_add (heap s2) refs
                                            \<lparr>table = table_name', column = column_name\<rparr>;
                                        s3 = columns_setitem i alias_name (Some refs') (s2\<lparr>heap := h\<rparr>)
                                    in column_loop get_identifier node i alias_name rest s3 True)))))
           | _ \<Rightarrow> Inl (ValueError, s)))"

definition aliased_column ::
  "get_identifier_t \<Rightarrow> is_count_function_t \<Rightarrow> AliasCollector \<Rightarrow> tree \<Rightarrow> AliasCollector result" where
  "aliased_column get_identifier is_count_function s node =
     (case alias_scope s node of
        Inl x \<Rightarrow> Inl x
      | Inr (i, s1) \<Rightarrow>
          (case node of
             Token _ \<Rightarrow> Inl (AttributeError, s1)
           | Tree _ cs _ \<Rightarrow>
               (case cs of
                  [value_node, as_token, alias_node] \<Rightarrow>
                    (case get_identifier alias_node (reserved_keywords s1) of
                       Inl e \<Rightarrow> Inl (e, s1)
                     | Inr alias_name \<Rightarrow>
                         if is_count_function value_node
                         then Inr (columns_setitem i alias_name None s1)
                         else
                           (case value_node of
                              Token _ \<Rightarrow> Inl (AttributeError, s1)
                            | Tree _ _ _ \<Rightarrow>
                                (case column_loop get_identifier node i alias_name
                                        (find_data ''fq_column'' value_node) s1 False of
                                   Inl x \<Rightarrow> Inl x
                                 | Inr (inserted_fq_alias, s2) \<Rightarrow>
                                     if \<not> inserted_fq_alias
                                     then Inr (columns_setitem i alias_name None s2)
                                     else Inr s2)))
                | _ \<Rightarrow> Inl (ValueError, s1))))"

text \<open>
  The dispatch of the parser library's \<^verbatim>\<open>Visitor\<close>: a tree is handed to the method
  named after its rule, if there is one, and a traversal stops at the first exception. The
  rules of the grammar that have a method are the five below; \<open>visit_all\<close> takes the
  trees in the order in which the traversal reaches them.
\<close>

definition visit_node ::
  "get_identifier_t \<Rightarrow> is_count_function_t \<Rightarrow> AliasCollector \<Rightarrow> tree \<Rightarrow> AliasCollector result" where
  "visit_node get_identifier is_count_function s node =
     (case node of
        Token _ \<Rightarrow> Inl (AttributeError, s)
      | Tree d _ _ \<Rightarrow>
          if d = ''selected_table'' then selected_table get_identifier s node
          else if d = ''full_query'' then full_query s node
          else if d = ''aliased_table'' then aliased_table get_identifier s node
          else if d = ''derived_table'' then derived_table get_identifier s node
          else if d = ''aliased_column'' then aliased_column get_identifier is_count_function s node
          else Inr s)"

fun visit_all ::
  "get_identifier_t \<Rightarrow> is_count_function_t \<Rightarrow> AliasCollector \<Rightarrow> tree list \<Rightarrow> AliasCollector result" where
  "visit_all get_identifier is_count_function s [] = Inr s"
| "visit_all get_identifier is_count_function s (node # nodes) =
     (case visit_node get_identifier is_count_function s node of
        Inl x \<Rightarrow> Inl x
      | Inr s' \<Rightarrow> visit_all get_identifier is_count_function s' nodes)"

text \<open>The collector as it is left behind, whether the call returned or raised.\<close>

fun final_state :: "AliasCollector result \<Rightarrow> AliasCollector" where
  "final_state (Inl (e, s)) = s"
| "final_state (Inr s) = s"

subsection \<open>What a reader of the collector observes\<close>

text \<open>The parent chain of a node, nearest ancestor first.\<close>

fun ancestors :: "pnode option \<Rightarrow> pnode list" where
  "ancestors None = []"
| "ancestors (Some (PNode d i p)) = PNode d i p # ancestors p"


text \<open>The addresses of the \<^verbatim>\<open>FqColumn\<close> objects held by the column sets of a scope.\<close>

definition entries_refs :: "(string \<times> addr list option) list \<Rightarrow> addr set" where
  "entries_refs cols = (\<Union>(k, v) \<in> set cols. case v of None \<Rightarrow> {} | Some refs \<Rightarrow> set refs)"

definition scope_refs :: "QueryAliases \<Rightarrow> addr set" where
  "scope_refs q = entries_refs (aliased_columns q)"

text \<open>
  Reading \<^verbatim>\<open>aliases._aliased_columns\<close> of scope \<open>i\<close> at an alias: no entry,
  \<^verbatim>\<open>None\<close>, or the columns that the members of the set hold at that moment.
\<close>

definition column_values :: "AliasCollector \<Rightarrow> addr list \<Rightarrow> FqColumn set" where
  "column_values s refs = (\<lambda>a. heap s ! a) ` set refs"

definition lookup_columns :: "AliasCollector \<Rightarrow> uuid \<Rightarrow> string \<Rightarrow> FqColumn set option option" where
  "lookup_columns s i alias_name =
     map_option (map_option (column_values s))
       (map_of (aliased_columns (the_scope s i)) alias_name)"

text \<open>
  References are never dangling and no object is a member of sets of two scopes: every
  \<^verbatim>\<open>FqColumn\<close> is allocated by the \<^verbatim>\<open>add\<close> that stores it.
\<close>

definition heap_ok :: "AliasCollector \<Rightarrow> bool" where
  "heap_ok s \<longleftrightarrow>
     (\<forall>i. \<forall>a \<in> scope_refs (the_scope s i). a < length (heap s)) \<and>
     (\<forall>i j. i \<noteq> j \<longrightarrow> scope_refs (the_scope s i) \<inter> scope_refs (the_scope s j) = {})"

subsection \<open>Worked inputs\<close>

text \<open>
  An instance of the two parameters for worked examples: an identifier is the text of a
  token, or of the only token below a rule, and a reserved keyword is refused; a count-style
  aggregate is a tree of rule \<^verbatim>\<open>count_star\<close>.
\<close>

fun plain_identifier :: get_identifier_t where
  "plain_identifier (Token t) kw = (if t \<in> kw then Inl (IdentifierError t) else Inr t)"
| "plain_identifier (Tree d [Token t] m) kw = (if t \<in> kw then Inl (IdentifierError t) else Inr t)"
| "plain_identifier (Tree d cs m) kw = Inl (IdentifierError d)"

definition count_star :: is_count_function_t where
  "count_star t = has_data ''count_star'' t"

text \<open>Nodes of a query whose boundary has scope id 1, seen from a clause below it.\<close>

definition in_query :: "uuid \<Rightarrow> pnode option" where
  "in_query i = Some (PNode ''select_statement'' (i + 100) (Some (PNode ''full_query'' i None)))"

definition table_as :: "uuid \<Rightarrow> string \<Rightarrow> string \<Rightarrow> tree" where
  "table_as i t a =
     Tree ''aliased_table'' [Token t, Token ''AS'', Token a] (Meta (i + 200) (in_query i))"

definition fq :: "string \<Rightarrow> string \<Rightarrow> tree" where
  "fq t c = Tree ''fq_column'' [Token t, Token c] (Meta 300 None)"

definition column_as :: "uuid \<Rightarrow> tree \<Rightarrow> string \<Rightarrow> tree" where
  "column_as i e a =
     Tree ''aliased_column'' [e, Token ''AS'', Token a] (Meta (i + 400) (in_query i))"

definition sum_of :: "tree \<Rightarrow> tree \<Rightarrow> tree" where
  "sum_of l r = Tree ''expr'' [l, Token ''+'', r] (Meta 500 None)"

text \<open>The collector after \<^verbatim>\<open>r.amt AS amt\<close> was recorded in scope 1.\<close>

definition amt_recorded :: AliasCollector where
  "amt_recorded =
     \<lparr>query_aliases =
        [(1, \<lparr>aliased_tables = [], aliased_columns = [(''amt'', Some [0])],
              qa_selected_table = None, subquery_aliases = []\<rparr>)],
      reserved_keywords = {}, self_selected_table = None,
      heap = [\<lparr>table = ''r'', column = ''amt''\<rparr>]\<rparr>"

text \<open>The same collector after \<^verbatim>\<open>rental AS r\<close> was then visited.\<close>

definition amt_backfilled :: AliasCollector where
  "amt_backfilled =
     \<lparr>query_aliases =
        [(1, \<lparr>aliased_tables = [(''r'', ''rental'')], aliased_columns = [(''amt'', Some [0])],
              qa_selected_table = None, subquery_aliases = []\<rparr>)],
      reserved_keywords = {}, self_selected_table = None,
      heap = [\<lparr>table = ''rental'', column = ''amt''\<rparr>]\<rparr>"








text \<open>A literal handed over as a bare token, aliased in the query with scope 1.\<close>

definition literal_as :: "string \<Rightarrow> string \<Rightarrow> tree" where
  "literal_as v a = column_as 1 (Token v) a"

subsection \<open>The primitive updates of one scope\<close>

text \<open>The collector in which a call ended that also returned a value, or raised.\<close>

fun loop_state :: "(bool \<times> AliasCollector) result \<Rightarrow> AliasCollector" where
  "loop_state (Inl (e, s)) = s"
| "loop_state (Inr (b, s)) = s"

text \<open>
  Everything the three alias-recording methods do to the collector, for a node whose scope
  is \<open>i\<close>, is a sequence of these updates: register the scope, bind a table alias, run the
  backfill, bind a subquery alias, read a column entry of the \<^verbatim>\<open>defaultdict\<close>, set
  a column entry to \<^verbatim>\<open>None\<close>, add a column to an entry that is a set.
\<close>

inductive scope_steps :: "uuid \<Rightarrow> AliasCollector \<Rightarrow> AliasCollector \<Rightarrow> bool" for i :: uuid where
  same: "scope_steps i s s"
| register:
    "scope_steps i s t \<Longrightarrow>
     scope_steps i s (t\<lparr>query_aliases := setdefault i new_QueryAliases (query_aliases t)\<rparr>)"
| bind_table:
    "scope_steps i s t \<Longrightarrow>
     scope_steps i s (put_scope i ((the_scope t i)\<lparr>aliased_tables :=
        AList.update al tn (aliased_tables (the_scope t i))\<rparr>) t)"
| run_backfill:
    "scope_steps i s t \<Longrightarrow>
     scope_steps i s (t\<lparr>heap := backfill al tn (aliased_columns (the_scope t i)) (heap t)\<rparr>)"
| bind_subquery:
    "scope_steps i s t \<Longrightarrow>
     scope_steps i s (put_scope i ((the_scope t i)\<lparr>subquery_aliases :=
        AList.update al u (subquery_aliases (the_scope t i))\<rparr>) t)"
| read_columns:
    "scope_steps i s t \<Longrightarrow> scope_steps i s (snd (columns_getitem i al t))"
| set_none:
    "scope_steps i s t \<Longrightarrow> scope_steps i s (columns_setitem i al None t)"
| add_column:
    "scope_steps i s t \<Longrightarrow> map_of (aliased_columns (the_scope t i)) al = Some (Some refs) \<Longrightarrow>
     scope_steps i s (columns_setitem i al (Some (snd (set_add (heap t) refs c)))
                        (t\<lparr>heap := fst (set_add (heap t) refs c)\<rparr>))"

text \<open>No key of the registry or of a dictionary of any scope is lost from \<open>s\<close> to \<open>t\<close>.\<close>

definition keeps_keys :: "AliasCollector \<Rightarrow> AliasCollector \<Rightarrow> bool" where
  "keeps_keys s t \<longleftrightarrow>
     dom (map_of (query_aliases s)) \<subseteq> dom (map_of (query_aliases t)) \<and>
     (\<forall>j. dom (map_of (aliased_tables (the_scope s j)))
            \<subseteq> dom (map_of (aliased_tables (the_scope t j))) \<and>
          dom (map_of (subquery_aliases (the_scope s j)))
            \<subseteq> dom (map_of (subquery_aliases (the_scope t j))) \<and>
          dom (map_of (aliased_columns (the_scope s j)))
            \<subseteq> dom (map_of (aliased_columns (the_scope t j))))"

text \<open>Scope 1 after \<^verbatim>\<open>COUNT(*) AS n\<close> was recorded, and a tree for that aggregate.\<close>

definition count_recorded :: AliasCollector where
  "count_recorded =
     \<lparr>query_aliases =
        [(1, \<lparr>aliased_tables = [], aliased_columns = [(''n'', None)],
              qa_selected_table = None, subquery_aliases = []\<rparr>)],
      reserved_keywords = {}, self_selected_table = None, heap = []\<rparr>"

definition count_call :: tree where
  "count_call = Tree ''count_star'' [Token ''COUNT'', Token ''*''] (Meta 600 None)"

definition query_node :: "uuid \<Rightarrow> tree" where
  "query_node i = Tree ''full_query'' [] (Meta i None)"


subsection \<open>Column references of an aliased expression\<close>

text \<open>
  What \<^verbatim>\<open>aliased_column\<close> reads off one \<^verbatim>\<open>fq_column\<close> node: the table
  part and the column part, when the node has exactly these two children and both are
  identifiers.
\<close>

fun fq_reference :: "get_identifier_t \<Rightarrow> string set \<Rightarrow> tree \<Rightarrow> (string \<times> string) option" where
  "fq_reference get_identifier kw (Tree d [table_node, column_node] m) =
     (case get_identifier table_node kw of
        Inl e \<Rightarrow> None
      | Inr t \<Rightarrow> (case get_identifier column_node kw of Inl e \<Rightarrow> None | Inr c \<Rightarrow> Some (t, c)))"
| "fq_reference get_identifier kw n = None"

text \<open>The columns an alias denotes in a scope, none if it has no entry or is \<^verbatim>\<open>None\<close>.\<close>

definition recorded_columns :: "AliasCollector \<Rightarrow> uuid \<Rightarrow> string \<Rightarrow> FqColumn set" where
  "recorded_columns s i alias_name =
     (case lookup_columns s i alias_name of Some (Some S) \<Rightarrow> S | _ \<Rightarrow> {})"

text \<open>
  Scope 1 after \<^verbatim>\<open>c AS b\<close> and \<^verbatim>\<open>b AS a\<close> were visited, and the same
  after \<^verbatim>\<open>a.x AS n\<close> was then recorded.
\<close>

definition alias_chain :: AliasCollector where
  "alias_chain =
     \<lparr>query_aliases =
        [(1, \<lparr>aliased_tables = [(''b'', ''c''), (''a'', ''b'')], aliased_columns = [],
              qa_selected_table = None, subquery_aliases = []\<rparr>)],
      reserved_keywords = {}, self_selected_table = None, heap = []\<rparr>"

definition alias_chain_recorded :: AliasCollector where
  "alias_chain_recorded =
     \<lparr>query_aliases =
        [(1, \<lparr>aliased_tables = [(''b'', ''c''), (''a'', ''b'')],
              aliased_columns = [(''n'', Some [0])],
              qa_selected_table = None, subquery_aliases = []\<rparr>)],
      reserved_keywords = {}, self_selected_table = None,
      heap = [\<lparr>table = ''b'', column = ''x''\<rparr>]\<rparr>"

text \<open>
  The collector \<open>amt_backfilled\<close> after \<^verbatim>\<open>r.amt + f.fee AS total\<close> was then
  recorded.
\<close>

definition total_recorded :: AliasCollector where
  "total_recorded =
     \<lparr>query_aliases =
        [(1, \<lparr>aliased_tables = [(''r'', ''rental'')],
              aliased_columns = [(''amt'', Some [0]), (''total'', Some [1, 2])],
              qa_selected_table = None, subquery_aliases = []\<rparr>)],
      reserved_keywords = {}, self_selected_table = None,
      heap = [\<lparr>table = ''rental'', column = ''amt''\<rparr>,
              \<lparr>table = ''rental'', column = ''amt''\<rparr>,
              \<lparr>table = ''f'', column = ''fee''\<rparr>]\<rparr>"

text \<open>A \<^verbatim>\<open>selected_table\<close> node of the query with scope \<open>i\<close>.\<close>

definition table_selected :: "uuid \<Rightarrow> string \<Rightarrow> tree" where
  "table_selected i t = Tree ''selected_table'' [Token t] (Meta (i + 700) (in_query i))"

text \<open>The collector after two queries, each with a single source table, were traversed.\<close>

definition two_selected :: AliasCollector where
  "two_selected =
     \<lparr>query_aliases = [(1, new_QueryAliases), (2, new_QueryAliases)],
      reserved_keywords = {}, self_selected_table = Some ''t2'', heap = []\<rparr>"

text \<open>
  The scope of \<^verbatim>\<open>SELECT a.c1 + x.c2 AS n FROM a AS x JOIN tbl AS a\<close> once the
  table alias \<^verbatim>\<open>tbl AS a\<close> was visited before the column alias, and once after it.
\<close>

definition table_alias_first :: AliasCollector where
  "table_alias_first =
     \<lparr>query_aliases =
        [(1, \<lparr>aliased_tables = [(''x'', ''a''), (''a'', ''tbl'')],
              aliased_columns = [(''n'', Some [0, 1])],
              qa_selected_table = None, subquery_aliases = []\<rparr>)],
      reserved_keywords = {}, self_selected_table = None,
      heap = [\<lparr>table = ''tbl'', column = ''c1''\<rparr>, \<lparr>table = ''a'', column = ''c2''\<rparr>]\<rparr>"

definition column_alias_first :: AliasCollector where
  "column_alias_first =
     \<lparr>query_aliases =
        [(1, \<lparr>aliased_tables = [(''x'', ''a''), (''a'', ''tbl'')],
              aliased_columns = [(''n'', Some [0, 1])],
              qa_selected_table = None, subquery_aliases = []\<rparr>)],
      reserved_keywords = {}, self_selected_table = None,
      heap = [\<lparr>table = ''tbl'', column = ''c1''\<rparr>, \<lparr>table = ''tbl'', column = ''c2''\<rparr>]\<rparr>"

section \<open>Validation by one of several validators\<close>

text \<open>
  Modelled from the spec: the orchestrator that runs the constraint validators
  (\<^verbatim>\<open>heimdallm.bifrosts.sql.bifrost.Bifrost\<close>, the base class of the two
  \<^verbatim>\<open>Bifrost\<close> classes at hand) and the validator interface are not part of the
  sources. A validator is a set of pure yes/no decisions; a query is the list of the
  identifiers and structural elements it touches; one validator's run fails fast at its
  first violation; the orchestrator takes a non-empty ordered collection of validators and
  the query is valid if at least one of them accepts every element.
\<close>

record validator =
  tableAllowed :: "string \<Rightarrow> bool"
  conditionColumnAllowed :: "FqColumn \<Rightarrow> bool"
  joinAllowed :: "FqColumn \<Rightarrow> FqColumn \<Rightarrow> bool"

datatype touched =
    TouchedTable string
  | TouchedConditionColumn FqColumn
  | TouchedJoin FqColumn FqColumn

datatype violation =
    IllegalTable string
  | IllegalConditionColumn FqColumn
  | IllegalJoin FqColumn FqColumn
  | NoValidators

fun allowed :: "validator \<Rightarrow> touched \<Rightarrow> bool" where
  "allowed v (TouchedTable t) = tableAllowed v t"
| "allowed v (TouchedConditionColumn c) = conditionColumnAllowed v c"
| "allowed v (TouchedJoin l r) = joinAllowed v l r"

fun violation_of :: "touched \<Rightarrow> violation" where
  "violation_of (TouchedTable t) = IllegalTable t"
| "violation_of (TouchedConditionColumn c) = IllegalConditionColumn c"
| "violation_of (TouchedJoin l r) = IllegalJoin l r"

text \<open>One validator over the whole query: the first violation, if any.\<close>

fun validate :: "validator \<Rightarrow> touched list \<Rightarrow> violation option" where
  "validate v [] = None"
| "validate v (e # es) = (if allowed v e then validate v es else Some (violation_of e))"

text \<open>
  The validators in order: the first that accepts the query settles it; if none does, the
  query is rejected with the violation the last one found.
\<close>

fun evaluate :: "validator list \<Rightarrow> touched list \<Rightarrow> violation + unit" where
  "evaluate [] q = Inl NoValidators"
| "evaluate [v] q = (case validate v q of None \<Rightarrow> Inr () | Some e \<Rightarrow> Inl e)"
| "evaluate (v # w # vs) q =
     (case validate v q of None \<Rightarrow> Inr () | Some e \<Rightarrow> evaluate (w # vs) q)"

text \<open>
  Two validators for worked examples: one allows only \<^verbatim>\<open>t1\<close> and
  \<^verbatim>\<open>t1.col\<close>, the other only \<^verbatim>\<open>t2\<close> and \<^verbatim>\<open>t2.col\<close>.
\<close>

definition only_table :: "string \<Rightarrow> validator" where
  "only_table t =
     \<lparr>tableAllowed = (\<lambda>x. x = t),
      conditionColumnAllowed = (\<lambda>c. table c = t),
      joinAllowed = (\<lambda>l r. False)\<rparr>"

section \<open>Properties\<close>

subsection \<open>Dictionary and registry facts\<close>

lemma map_of_setdefault:
  "map_of (setdefault k v d) j =
     (if j = k then Some (case map_of d k of Some x \<Rightarrow> x | None \<Rightarrow> v) else map_of d j)"
  by (auto simp: setdefault_def map_add_def split: option.splits)

lemma the_scope_setdefault [simp]:
  "the_scope (s\<lparr>query_aliases := setdefault i new_QueryAliases (query_aliases s)\<rparr>) j = the_scope s j"
  by (simp add: the_scope_def map_of_setdefault split: option.splits)

lemma the_scope_put_scope [simp]:
  "the_scope (put_scope i q s) j = (if j = i then q else the_scope s j)"
  by (simp add: the_scope_def put_scope_def update_conv')

lemma the_scope_heap_update [simp]: "the_scope (s\<lparr>heap := h\<rparr>) j = the_scope s j"
  by (simp add: the_scope_def)

lemma put_scope_fields [simp]:
  "heap (put_scope i q s) = heap s"
  "reserved_keywords (put_scope i q s) = reserved_keywords s"
  "self_selected_table (put_scope i q s) = self_selected_table s"
  by (simp_all add: put_scope_def)

subsection \<open>Scope lookup\<close>

lemma find_scope_None_iff:
  "find_scope p = None \<longleftrightarrow> (\<forall>a \<in> set (ancestors p). pdata a \<noteq> ''full_query'')"
  by (induction p rule: find_scope.induct) auto

lemma find_scope_nearest:
  "ancestors p = pre @ a # post \<Longrightarrow> \<forall>b \<in> set pre. pdata b \<noteq> ''full_query''
   \<Longrightarrow> pdata a = ''full_query'' \<Longrightarrow> find_scope p = Some (pid a)"
proof (induction p arbitrary: pre rule: find_scope.induct)
  case 1
  then show ?case by simp
next
  case (2 d i p)
  show ?case
  proof (cases pre)
    case Nil
    with 2 show ?thesis by auto
  next
    case (Cons b pre')
    with 2 show ?thesis by auto
  qed
qed

lemma alias_scope_Inr:
  "alias_scope s node = Inr (i, s1) \<longleftrightarrow>
     (\<exists>d cs m. node = Tree d cs m \<and> find_scope (meta_parent m) = Some i \<and>
        s1 = s\<lparr>query_aliases := setdefault i new_QueryAliases (query_aliases s)\<rparr>)"
  by (auto simp: alias_scope_def split: tree.splits option.splits)

text \<open>
  C4. The scope lookup of a tree node raises exactly when no ancestor is a
  \<^verbatim>\<open>full_query\<close>, and what it raises is the \<^verbatim>\<open>RuntimeError\<close>, with the
  collector untouched. When the chain has a nearest \<^verbatim>\<open>full_query\<close> ancestor (none
  before it on the way up), the lookup returns the scope registered under that ancestor's id:
  the one already registered, or a new empty one that it registers; no other registry entry
  and nothing else of the collector changes.
\<close>

theorem alias_scope_nearest_boundary:
  "((\<exists>x. alias_scope s (Tree d cs m) = Inl x) \<longleftrightarrow>
      (\<forall>a \<in> set (ancestors (meta_parent m)). pdata a \<noteq> ''full_query'')) \<and>
   (\<forall>x. alias_scope s (Tree d cs m) = Inl x \<longrightarrow>
      x = (RuntimeError ''could not find wrapping query for node'', s)) \<and>
   (\<forall>pre a post.
      ancestors (meta_parent m) = pre @ a # post \<and>
      (\<forall>b \<in> set pre. pdata b \<noteq> ''full_query'') \<and> pdata a = ''full_query'' \<longrightarrow>
      (\<exists>s'. alias_scope s (Tree d cs m) = Inr (pid a, s') \<and>
         map_of (query_aliases s') (pid a) =
           Some (case map_of (query_aliases s) (pid a) of
                   Some q \<Rightarrow> q | None \<Rightarrow> new_QueryAliases) \<and>
         (\<forall>j. j \<noteq> pid a \<longrightarrow> map_of (query_aliases s') j = map_of (query_aliases s) j) \<and>
         heap s' = heap s \<and> reserved_keywords s' = reserved_keywords s \<and>
         self_selected_table s' = self_selected_table s))"
proof (intro conjI allI impI)
  show "(\<exists>x. alias_scope s (Tree d cs m) = Inl x) \<longleftrightarrow>
      (\<forall>a \<in> set (ancestors (meta_parent m)). pdata a \<noteq> ''full_query'')"
    unfolding find_scope_None_iff [symmetric]
    by (auto simp: alias_scope_def split: option.splits)
next
  fix x assume "alias_scope s (Tree d cs m) = Inl x"
  then show "x = (RuntimeError ''could not find wrapping query for node'', s)"
    by (auto simp: alias_scope_def split: option.splits)
next
  fix pre a post
  assume "ancestors (meta_parent m) = pre @ a # post \<and>
      (\<forall>b \<in> set pre. pdata b \<noteq> ''full_query'') \<and> pdata a = ''full_query''"
  then have "find_scope (meta_parent m) = Some (pid a)"
    using find_scope_nearest by blast
  then show "\<exists>s'. alias_scope s (Tree d cs m) = Inr (pid a, s') \<and>
         map_of (query_aliases s') (pid a) =
           Some (case map_of (query_aliases s) (pid a) of
                   Some q \<Rightarrow> q | None \<Rightarrow> new_QueryAliases) \<and>
         (\<forall>j. j \<noteq> pid a \<longrightarrow> map_of (query_aliases s') j = map_of (query_aliases s) j) \<and>
         heap s' = heap s \<and> reserved_keywords s' = reserved_keywords s \<and>
         self_selected_table s' = self_selected_table s"
    by (simp add: alias_scope_def map_of_setdefault)
qed

theorem alias_scope_nearest_boundary_witness:
  "(\<exists>s'. alias_scope (new_AliasCollector {}) (table_as 1 ''rental'' ''r'') = Inr (1, s') \<and>
         map_of (query_aliases s') 1 = Some new_QueryAliases) \<and>
   (\<exists>x. alias_scope (new_AliasCollector {}) (fq ''r'' ''amt'') = Inl x)"
proof -
  let ?s = "new_AliasCollector {}"
  let ?top = "PNode ''full_query'' 1 None"
  let ?mid = "PNode ''select_statement'' 101 (Some ?top)"
  have chain: "ancestors (meta_parent (Meta 201 (in_query 1))) = [?mid] @ ?top # [] \<and>
      (\<forall>b \<in> set [?mid]. pdata b \<noteq> ''full_query'') \<and> pdata ?top = ''full_query''"
    by (simp add: in_query_def)
  have none: "\<forall>a \<in> set (ancestors (meta_parent (Meta 300 None))). pdata a \<noteq> ''full_query''"
    by simp
  note thm1 = alias_scope_nearest_boundary
    [of ?s "''aliased_table''" "[Token ''rental'', Token ''AS'', Token ''r'']" "Meta 201 (in_query 1)"]
  note thm2 = alias_scope_nearest_boundary
    [of ?s "''fq_column''" "[Token ''r'', Token ''amt'']" "Meta 300 None"]
  from thm1 have "\<forall>pre a post.
      ancestors (meta_parent (Meta 201 (in_query 1))) = pre @ a # post \<and>
      (\<forall>b \<in> set pre. pdata b \<noteq> ''full_query'') \<and> pdata a = ''full_query'' \<longrightarrow>
      (\<exists>s'. alias_scope ?s (Tree ''aliased_table'' [Token ''rental'', Token ''AS'', Token ''r'']
                (Meta 201 (in_query 1))) = Inr (pid a, s') \<and>
         map_of (query_aliases s') (pid a) =
           Some (case map_of (query_aliases ?s) (pid a) of
                   Some q \<Rightarrow> q | None \<Rightarrow> new_QueryAliases) \<and>
         (\<forall>j. j \<noteq> pid a \<longrightarrow> map_of (query_aliases s') j = map_of (query_aliases ?s) j) \<and>
         heap s' = heap ?s \<and> reserved_keywords s' = reserved_keywords ?s \<and>
         self_selected_table s' = self_selected_table ?s)"
    by (rule conjunct2 [THEN conjunct2])
  from this [rule_format, OF chain]
  obtain s' where "alias_scope ?s (Tree ''aliased_table'' [Token ''rental'', Token ''AS'', Token ''r'']
                (Meta 201 (in_query 1))) = Inr (pid ?top, s')"
     and "map_of (query_aliases s') (pid ?top) =
           Some (case map_of (query_aliases ?s) (pid ?top) of
                   Some q \<Rightarrow> q | None \<Rightarrow> new_QueryAliases)"
    by (elim exE conjE)
  then have a: "\<exists>s'. alias_scope ?s (table_as 1 ''rental'' ''r'') = Inr (1, s') \<and>
         map_of (query_aliases s') 1 = Some new_QueryAliases"
    by (simp add: table_as_def new_AliasCollector_def)
  from thm2 have "(\<exists>x. alias_scope ?s (Tree ''fq_column'' [Token ''r'', Token ''amt''] (Meta 300 None)) = Inl x) \<longleftrightarrow>
      (\<forall>a \<in> set (ancestors (meta_parent (Meta 300 None))). pdata a \<noteq> ''full_query'')"
    by (rule conjunct1)
  with none have b: "\<exists>x. alias_scope ?s (fq ''r'' ''amt'') = Inl x"
    by (simp only: fq_def)
  from a b show ?thesis by (rule conjI)
qed

subsection \<open>Table aliases and the backfill\<close>

lemma backfill_column_idem [simp]:
  "backfill_column al tn (backfill_column al tn c) = backfill_column al tn c"
  by (simp add: backfill_column_def)

lemma length_backfill_set [simp]: "length (backfill_set al tn refs h) = length h"
  unfolding backfill_set_def by (induction refs arbitrary: h) simp_all

lemma backfill_set_nth:
  "a < length h \<Longrightarrow>
   backfill_set al tn refs h ! a =
     (if a \<in> set refs then backfill_column al tn (h ! a) else h ! a)"
  unfolding backfill_set_def
proof (induction refs arbitrary: h)
  case Nil
  then show ?case by simp
next
  case (Cons r refs)
  then show ?case by (cases "a = r") (simp_all add: nth_list_update)
qed

lemma entries_refs_simps [simp]:
  "entries_refs [] = {}"
  "entries_refs ((k, None) # cols) = entries_refs cols"
  "entries_refs ((k, Some refs) # cols) = set refs \<union> entries_refs cols"
  by (simp_all add: entries_refs_def)

lemma length_backfill [simp]: "length (backfill al tn cols h) = length h"
  unfolding backfill_def
  by (induction cols arbitrary: h) (auto split: option.splits)

lemma backfill_nth:
  "a < length h \<Longrightarrow>
   backfill al tn cols h ! a =
     (if a \<in> entries_refs cols then backfill_column al tn (h ! a) else h ! a)"
proof (induction cols arbitrary: h)
  case Nil
  then show ?case by (simp add: backfill_def)
next
  case (Cons e cols)
  obtain k v where e: "e = (k, v)" by (cases e)
  have step: "backfill al tn (e # cols) h =
      backfill al tn cols (case v of None \<Rightarrow> h
         | Some refs \<Rightarrow> if refs = [] then h else backfill_set al tn refs h)"
    by (simp add: backfill_def e)
  show ?case
  proof (cases v)
    case None
    with Cons e step show ?thesis by simp
  next
    case (Some refs)
    with Cons e step show ?thesis
      by (cases "refs = []") (simp_all add: backfill_set_nth)
  qed
qed

lemma aliased_table_Inr:
  assumes "aliased_table get_identifier s node = Inr s'"
  obtains d table_node as_token alias_node m table_name ali i where
    "node = Tree d [table_node, as_token, alias_node] m"
    "get_identifier table_node (reserved_keywords s) = Inr table_name"
    "get_identifier alias_node (reserved_keywords s) = Inr ali"
    "find_scope (meta_parent m) = Some i"
    "s' = (put_scope i ((the_scope s i)\<lparr>aliased_tables :=
                AList.update ali table_name (aliased_tables (the_scope s i))\<rparr>)
              (s\<lparr>query_aliases := setdefault i new_QueryAliases (query_aliases s)\<rparr>))
              \<lparr>heap := backfill ali table_name (aliased_columns (the_scope s i)) (heap s)\<rparr>"
proof -
  from assms obtain d cs m where node: "node = Tree d cs m"
    by (cases node) (auto simp: aliased_table_def)
  from assms node obtain table_node as_token alias_node
    where cs: "cs = [table_node, as_token, alias_node]"
    by (auto simp: aliased_table_def split: list.splits)
  from assms node cs obtain table_name
    where tn: "get_identifier table_node (reserved_keywords s) = Inr table_name"
    by (auto simp: aliased_table_def split: sum.splits)
  from assms node cs tn obtain ali
    where al: "get_identifier alias_node (reserved_keywords s) = Inr ali"
    by (auto simp: aliased_table_def split: sum.splits)
  from assms node cs tn al obtain i s1
    where sc: "alias_scope s node = Inr (i, s1)"
    by (auto simp: aliased_table_def split: sum.splits)
  then have fs: "find_scope (meta_parent m) = Some i"
    and s1: "s1 = s\<lparr>query_aliases := setdefault i new_QueryAliases (query_aliases s)\<rparr>"
    using node by (auto simp: alias_scope_Inr)
  have "s' = (put_scope i ((the_scope s1 i)\<lparr>aliased_tables :=
                AList.update ali table_name (aliased_tables (the_scope s1 i))\<rparr>) s1)
              \<lparr>heap := backfill ali table_name (aliased_columns (the_scope s1 i)) (heap s1)\<rparr>"
    using assms node cs tn al sc by (simp add: aliased_table_def Let_def)
  then show thesis
    using that [OF _ tn al fs] node cs by (simp add: s1)
qed

text \<open>
  C1. When \<^verbatim>\<open>aliased_table\<close> returns for a node \<^verbatim>\<open><table> AS <alias>\<close>,
  the node's scope binds the alias to the table in \<^verbatim>\<open>_aliased_tables\<close>; the column
  sets of that scope hold the same objects as before; and every allocated
  \<^verbatim>\<open>FqColumn\<close> object is the object it was, except that an object held by a set of
  this scope whose table field was the alias now has the table name there. A later read
  through any reference to such an object sees the table name.
\<close>

theorem aliased_table_backfill:
  assumes "aliased_table get_identifier s node = Inr s'"
  shows "\<exists>d table_node as_token alias_node m table_name alias i.
      node = Tree d [table_node, as_token, alias_node] m \<and>
      get_identifier table_node (reserved_keywords s) = Inr table_name \<and>
      get_identifier alias_node (reserved_keywords s) = Inr alias \<and>
      find_scope (meta_parent m) = Some i \<and>
      map_of (aliased_tables (the_scope s' i)) alias = Some table_name \<and>
      aliased_columns (the_scope s' i) = aliased_columns (the_scope s i) \<and>
      length (heap s') = length (heap s) \<and>
      (\<forall>a < length (heap s).
         (a \<in> scope_refs (the_scope s i) \<and> table (heap s ! a) = alias \<longrightarrow>
            heap s' ! a = (heap s ! a)\<lparr>table := table_name\<rparr>) \<and>
         (a \<notin> scope_refs (the_scope s i) \<or> table (heap s ! a) \<noteq> alias \<longrightarrow>
            heap s' ! a = heap s ! a))"
proof -
  from assms obtain d table_node as_token alias_node m table_name ali i where
    node: "node = Tree d [table_node, as_token, alias_node] m"
    and tn: "get_identifier table_node (reserved_keywords s) = Inr table_name"
    and al: "get_identifier alias_node (reserved_keywords s) = Inr ali"
    and fs: "find_scope (meta_parent m) = Some i"
    and s': "s' = (put_scope i ((the_scope s i)\<lparr>aliased_tables :=
                AList.update ali table_name (aliased_tables (the_scope s i))\<rparr>)
              (s\<lparr>query_aliases := setdefault i new_QueryAliases (query_aliases s)\<rparr>))
              \<lparr>heap := backfill ali table_name (aliased_columns (the_scope s i)) (heap s)\<rparr>"
    by (rule aliased_table_Inr)
  have "map_of (aliased_tables (the_scope s' i)) ali = Some table_name"
    by (simp add: s' update_conv')
  moreover have "aliased_columns (the_scope s' i) = aliased_columns (the_scope s i)"
    by (simp add: s')
  moreover have hp: "heap s' = backfill ali table_name (aliased_columns (the_scope s i)) (heap s)"
    by (simp add: s')
  moreover have "\<forall>a < length (heap s).
         (a \<in> scope_refs (the_scope s i) \<and> table (heap s ! a) = ali \<longrightarrow>
            heap s' ! a = (heap s ! a)\<lparr>table := table_name\<rparr>) \<and>
         (a \<notin> scope_refs (the_scope s i) \<or> table (heap s ! a) \<noteq> ali \<longrightarrow>
            heap s' ! a = heap s ! a)"
    by (simp add: hp backfill_nth scope_refs_def backfill_column_def)
  ultimately show ?thesis
    using node tn al fs by (simp add: hp)
qed

theorem aliased_table_backfill_witness:
  "aliased_table plain_identifier amt_recorded (table_as 1 ''rental'' ''r'') = Inr amt_backfilled \<and>
   map_of (aliased_tables (the_scope amt_backfilled 1)) ''r'' = Some ''rental'' \<and>
   heap amt_backfilled ! 0 = (heap amt_recorded ! 0)\<lparr>table := ''rental''\<rparr>"
proof -
  have run: "aliased_table plain_identifier amt_recorded (table_as 1 ''rental'' ''r'') =
      Inr amt_backfilled"
    by (simp add: aliased_table_def amt_recorded_def table_as_def in_query_def alias_scope_def
        setdefault_def the_scope_def put_scope_def backfill_def backfill_set_def
        backfill_column_def amt_backfilled_def)
  from aliased_table_backfill [OF run]
  obtain d table_node as_token alias_node m table_name ali i where
    node: "table_as 1 ''rental'' ''r'' = Tree d [table_node, as_token, alias_node] m"
    and tn: "plain_identifier table_node (reserved_keywords amt_recorded) = Inr table_name"
    and al: "plain_identifier alias_node (reserved_keywords amt_recorded) = Inr ali"
    and fs: "find_scope (meta_parent m) = Some i"
    and tbl: "map_of (aliased_tables (the_scope amt_backfilled i)) ali = Some table_name"
    and hp: "\<forall>a < length (heap amt_recorded).
         (a \<in> scope_refs (the_scope amt_recorded i) \<and> table (heap amt_recorded ! a) = ali \<longrightarrow>
            heap amt_backfilled ! a = (heap amt_recorded ! a)\<lparr>table := table_name\<rparr>) \<and>
         (a \<notin> scope_refs (the_scope amt_recorded i) \<or> table (heap amt_recorded ! a) \<noteq> ali \<longrightarrow>
            heap amt_backfilled ! a = heap amt_recorded ! a)"
    by (elim exE conjE)
  from node tn al fs have ids: "table_name = ''rental''" "ali = ''r''" "i = 1"
    by (auto simp: table_as_def in_query_def amt_recorded_def)
  have "0 < length (heap amt_recorded)" "0 \<in> scope_refs (the_scope amt_recorded 1)"
    "table (heap amt_recorded ! 0) = ''r''"
    by (simp_all add: amt_recorded_def the_scope_def scope_refs_def entries_refs_def)
  with hp ids have "heap amt_backfilled ! 0 = (heap amt_recorded ! 0)\<lparr>table := ''rental''\<rparr>"
    by blast
  with run tbl ids show ?thesis by simp
qed

subsection \<open>The methods as sequences of primitive updates\<close>

lemma scope_steps_trans:
  "scope_steps i t u \<Longrightarrow> scope_steps i s t \<Longrightarrow> scope_steps i s u"
  by (induction rule: scope_steps.induct) (auto intro: scope_steps.intros)

lemma map_of_snoc:
  "map_of (d @ [(k, v)]) j =
     (case map_of d j of Some x \<Rightarrow> Some x | None \<Rightarrow> if j = k then Some v else None)"
  by (simp add: map_add_def split: option.splits)

lemma columns_getitem_entry:
  "columns_getitem i al s = (v, s2) \<Longrightarrow> map_of (aliased_columns (the_scope s2 i)) al = Some v"
  by (auto simp: columns_getitem_def Let_def map_add_def split: option.splits)

lemma alias_scope_Inl: "alias_scope s node = Inl (e, s1) \<Longrightarrow> s1 = s"
  by (auto simp: alias_scope_def split: tree.splits option.splits)

lemma resolve_table_Inr:
  "resolve_table s node tbl = Inr (r, s1) \<longleftrightarrow>
     (\<exists>i. alias_scope s node = Inr (i, s1) \<and> r = dict_get (aliased_tables (the_scope s i)) tbl tbl)"
  by (auto simp: resolve_table_def alias_scope_def split: tree.splits option.splits)

lemma resolve_table_Inl: "resolve_table s node tbl = Inl (e, s1) \<Longrightarrow> s1 = s"
  by (auto simp: resolve_table_def split: sum.splits dest: alias_scope_Inl)

lemma column_loop_steps:
  assumes "find_scope (meta_parent m) = Some i"
  shows "scope_steps i s0 s \<Longrightarrow>
     scope_steps i s0 (loop_state (column_loop gi (Tree d cs m) i al nodes s b))"
proof (induction nodes arbitrary: s b)
  case Nil
  then show ?case by simp
next
  case (Cons n nodes)
  let ?node = "Tree d cs m"
  let ?s1 = "s\<lparr>query_aliases := setdefault i new_QueryAliases (query_aliases s)\<rparr>"
  have sc: "\<And>t. resolve_table s ?node t = Inr (dict_get (aliased_tables (the_scope s i)) t t, ?s1)"
    using assms by (simp add: resolve_table_def alias_scope_def)
  have st1: "scope_steps i s0 ?s1"
    using Cons.prems by (rule scope_steps.register)
  show ?case
  proof (cases n)
    case (Token x)
    with Cons.prems show ?thesis by simp
  next
    case (Tree d' cs' m')
    show ?thesis
    proof (cases "\<exists>tnode cnode. cs' = [tnode, cnode]")
      case False
      then have "column_loop gi ?node i al (n # nodes) s b = Inl (ValueError, s)"
        using Tree by (auto split: list.splits)
      with Cons.prems show ?thesis by simp
    next
      case True
      then obtain tnode cnode where cs': "cs' = [tnode, cnode]" by blast
      show ?thesis
      proof (cases "gi tnode (reserved_keywords s)")
        case (Inl e)
        with Tree cs' Cons.prems show ?thesis by simp
      next
        case tn: (Inr table_name)
        show ?thesis
        proof (cases "gi cnode (reserved_keywords s)")
          case (Inl e)
          with Tree cs' tn Cons.prems show ?thesis by simp
        next
          case cn: (Inr column_name)
          obtain v s2 where gi: "columns_getitem i al ?s1 = (v, s2)"
            by (cases "columns_getitem i al ?s1")
          have st2: "scope_steps i s0 s2"
            using scope_steps.read_columns [OF st1, of al] gi by simp
          show ?thesis
          proof (cases v)
            case None
            with Tree cs' tn cn sc gi st2 show ?thesis by simp
          next
            case (Some refs)
            let ?c = "\<lparr>table = dict_get (aliased_tables (the_scope s i)) table_name table_name,
                       column = column_name\<rparr>"
            let ?s3 = "columns_setitem i al (Some (snd (set_add (heap s2) refs ?c)))
                        (s2\<lparr>heap := fst (set_add (heap s2) refs ?c)\<rparr>)"
            have ent: "map_of (aliased_columns (the_scope s2 i)) al = Some (Some refs)"
              using columns_getitem_entry [OF gi] Some by simp
            have st3: "scope_steps i s0 ?s3"
              using scope_steps.add_column [OF st2 ent] .
            have "column_loop gi ?node i al (n # nodes) s b =
                column_loop gi ?node i al nodes ?s3 True"
              using Tree cs' tn cn sc gi Some by (simp add: split_beta Let_def)
            with Cons.IH [OF st3] show ?thesis by simp
          qed
        qed
      qed
    qed
  qed
qed

lemma aliased_table_steps:
  assumes "find_scope (meta_parent m) = Some i"
  shows "scope_steps i s (final_state (aliased_table gi s (Tree d cs m)))"
proof (cases "\<exists>a b c. cs = [a, b, c]")
  case False
  then have "aliased_table gi s (Tree d cs m) = Inl (ValueError, s)"
    by (auto simp: aliased_table_def split: list.splits)
  then show ?thesis by (simp add: scope_steps.same)
next
  case True
  then obtain table_node as_token alias_node where cs: "cs = [table_node, as_token, alias_node]"
    by blast
  let ?s1 = "s\<lparr>query_aliases := setdefault i new_QueryAliases (query_aliases s)\<rparr>"
  have sc: "alias_scope s (Tree d cs m) = Inr (i, ?s1)"
    using assms by (simp add: alias_scope_def)
  show ?thesis
  proof (cases "gi table_node (reserved_keywords s)")
    case (Inl e)
    with cs show ?thesis by (simp add: aliased_table_def scope_steps.same)
  next
    case tn: (Inr table_name)
    show ?thesis
    proof (cases "gi alias_node (reserved_keywords s)")
      case (Inl e)
      with cs tn show ?thesis by (simp add: aliased_table_def scope_steps.same)
    next
      case al: (Inr ali)
      let ?s2 = "put_scope i ((the_scope ?s1 i)\<lparr>aliased_tables :=
                   AList.update ali table_name (aliased_tables (the_scope ?s1 i))\<rparr>) ?s1"
      let ?s3 = "?s2\<lparr>heap := backfill ali table_name (aliased_columns (the_scope ?s2 i)) (heap ?s2)\<rparr>"
      have "scope_steps i s ?s1" by (rule scope_steps.register) (rule scope_steps.same)
      then have "scope_steps i s ?s2" by (rule scope_steps.bind_table)
      then have "scope_steps i s ?s3" by (rule scope_steps.run_backfill)
      moreover have "aliased_table gi s (Tree d cs m) = Inr ?s3"
        using cs tn al sc unfolding aliased_table_def by (simp add: Let_def)
      ultimately show ?thesis by simp
    qed
  qed
qed

lemma derived_table_steps:
  assumes "find_scope (meta_parent m) = Some i"
  shows "scope_steps i s (final_state (derived_table gi s (Tree d cs m)))"
proof (cases "\<exists>a b c. cs = [a, b, c]")
  case False
  then have "derived_table gi s (Tree d cs m) = Inl (ValueError, s)"
    by (auto simp: derived_table_def split: list.splits)
  then show ?thesis by (simp add: scope_steps.same)
next
  case True
  then obtain subquery as_token alias_node where cs: "cs = [subquery, as_token, alias_node]"
    by blast
  let ?s1 = "s\<lparr>query_aliases := setdefault i new_QueryAliases (query_aliases s)\<rparr>"
  have sc: "alias_scope s (Tree d cs m) = Inr (i, ?s1)"
    using assms by (simp add: alias_scope_def)
  have st1: "scope_steps i s ?s1" by (rule scope_steps.register) (rule scope_steps.same)
  show ?thesis
  proof (cases "gi alias_node (reserved_keywords s)")
    case (Inl e)
    with cs show ?thesis by (simp add: derived_table_def scope_steps.same)
  next
    case al: (Inr alias_name)
    show ?thesis
    proof (cases subquery)
      case (Token x)
      with cs al sc st1 show ?thesis by (simp add: derived_table_def)
    next
      case (Tree d' cs' m')
      let ?s2 = "put_scope i ((the_scope ?s1 i)\<lparr>subquery_aliases :=
                   AList.update alias_name (meta_id m') (subquery_aliases (the_scope ?s1 i))\<rparr>) ?s1"
      have "scope_steps i s ?s2" using st1 by (rule scope_steps.bind_subquery)
      moreover have "derived_table gi s (Tree d cs m) = Inr ?s2"
        using cs al sc Tree unfolding derived_table_def by (simp add: Let_def)
      ultimately show ?thesis by simp
    qed
  qed
qed

lemma aliased_column_steps:
  assumes "find_scope (meta_parent m) = Some i"
  shows "scope_steps i s (final_state (aliased_column gi icf s (Tree d cs m)))"
proof -
  let ?s1 = "s\<lparr>query_aliases := setdefault i new_QueryAliases (query_aliases s)\<rparr>"
  have sc: "alias_scope s (Tree d cs m) = Inr (i, ?s1)"
    using assms by (simp add: alias_scope_def)
  have st1: "scope_steps i s ?s1" by (rule scope_steps.register) (rule scope_steps.same)
  show ?thesis
  proof (cases "\<exists>a b c. cs = [a, b, c]")
    case False
    then have "aliased_column gi icf s (Tree d cs m) = Inl (ValueError, ?s1)"
      using sc by (auto simp: aliased_column_def split: list.splits)
    with st1 show ?thesis by simp
  next
    case True
    then obtain value_node as_token alias_node where cs: "cs = [value_node, as_token, alias_node]"
      by blast
    show ?thesis
    proof (cases "gi alias_node (reserved_keywords ?s1)")
      case (Inl e)
      with cs sc st1 show ?thesis by (simp add: aliased_column_def)
    next
      case al: (Inr alias_name)
      show ?thesis
      proof (cases "icf value_node")
        case True
        have "scope_steps i s (columns_setitem i alias_name None ?s1)"
          using st1 by (rule scope_steps.set_none)
        with cs sc al True show ?thesis by (simp add: aliased_column_def)
      next
        case nc: False
        show ?thesis
        proof (cases value_node)
          case (Token x)
          with cs sc al nc st1 show ?thesis by (simp add: aliased_column_def)
        next
          case (Tree d' cs' m')
          let ?r = "column_loop gi (Tree d cs m) i alias_name
                      (find_data ''fq_column'' value_node) ?s1 False"
          have lp: "scope_steps i s (loop_state ?r)"
            using assms st1 by (rule column_loop_steps)
          have eq: "aliased_column gi icf s (Tree d cs m) =
              (case ?r of Inl x \<Rightarrow> Inl x
               | Inr (inserted_fq_alias, s2) \<Rightarrow>
                   if \<not> inserted_fq_alias then Inr (columns_setitem i alias_name None s2)
                   else Inr s2)"
            using cs sc al nc Tree by (simp add: aliased_column_def)
          show ?thesis
          proof (cases ?r)
            case (Inl x)
            with lp eq show ?thesis by (cases x) simp
          next
            case (Inr y)
            obtain b s2 where y: "y = (b, s2)" by (cases y)
            with Inr lp have st2: "scope_steps i s s2" by simp
            then have "scope_steps i s (columns_setitem i alias_name None s2)"
              by (rule scope_steps.set_none)
            with st2 eq Inr y show ?thesis by simp
          qed
        qed
      qed
    qed
  qed
qed

lemma no_scope_final:
  assumes "find_scope (meta_parent m) = None"
  shows "final_state (aliased_table gi s (Tree d cs m)) = s \<and>
         final_state (derived_table gi s (Tree d cs m)) = s \<and>
         final_state (aliased_column gi icf s (Tree d cs m)) = s"
proof -
  have sc: "alias_scope s (Tree d cs m) =
      Inl (RuntimeError ''could not find wrapping query for node'', s)"
    using assms by (simp add: alias_scope_def)
  have "final_state (aliased_table gi s (Tree d cs m)) = s"
    using sc by (auto simp: aliased_table_def split: list.splits sum.splits)
  moreover have "final_state (derived_table gi s (Tree d cs m)) = s"
    using sc by (auto simp: derived_table_def split: list.splits sum.splits)
  moreover have "final_state (aliased_column gi icf s (Tree d cs m)) = s"
    using sc by (simp add: aliased_column_def)
  ultimately show ?thesis by simp
qed

lemma recording_steps:
  "\<exists>i. scope_steps i s (final_state (aliased_table gi s (Tree d cs m))) \<and>
       scope_steps i s (final_state (derived_table gi s (Tree d cs m))) \<and>
       scope_steps i s (final_state (aliased_column gi icf s (Tree d cs m)))"
proof (cases "find_scope (meta_parent m)")
  case None
  from no_scope_final [OF None, of gi s d cs icf] show ?thesis
    by (simp add: scope_steps.same)
next
  case (Some i)
  from aliased_table_steps [OF Some] derived_table_steps [OF Some]
    aliased_column_steps [OF Some]
  show ?thesis by blast
qed

lemma visit_node_steps:
  "(\<exists>t. final_state (visit_node gi icf s node) = s\<lparr>self_selected_table := Some t\<rparr>) \<or>
   (\<exists>i. scope_steps i s (final_state (visit_node gi icf s node)))"
proof (cases node)
  case (Token x)
  then show ?thesis by (simp add: visit_node_def scope_steps.same)
next
  case (Tree d cs m)
  have sel0: "final_state (selected_table gi s node) = s \<or>
      (\<exists>t. final_state (selected_table gi s node) = s\<lparr>self_selected_table := Some t\<rparr>)"
    by (auto simp: selected_table_def split: sum.splits)
  have fq: "scope_steps (meta_id m) s (final_state (full_query s node))"
    using Tree by (simp add: full_query_def scope_steps.register scope_steps.same)
  from recording_steps [of s gi d cs m icf] obtain i where
    rest: "scope_steps i s (final_state (aliased_table gi s node))"
      "scope_steps i s (final_state (derived_table gi s node))"
      "scope_steps i s (final_state (aliased_column gi icf s node))"
    unfolding Tree by blast
  have eq: "visit_node gi icf s node =
      (if d = ''selected_table'' then selected_table gi s node
       else if d = ''full_query'' then full_query s node
       else if d = ''aliased_table'' then aliased_table gi s node
       else if d = ''derived_table'' then derived_table gi s node
       else if d = ''aliased_column'' then aliased_column gi icf s node
       else Inr s)"
    unfolding visit_node_def Tree by (simp only: tree.case)
  consider (sel) "visit_node gi icf s node = selected_table gi s node"
    | (fq) "visit_node gi icf s node = full_query s node"
    | (tbl) "visit_node gi icf s node = aliased_table gi s node"
    | (sub) "visit_node gi icf s node = derived_table gi s node"
    | (col) "visit_node gi icf s node = aliased_column gi icf s node"
    | (dflt) "visit_node gi icf s node = Inr s"
    unfolding eq by presburger
  then show ?thesis
  proof cases
    case sel
    from sel0 scope_steps.same [of 0 s] show ?thesis unfolding sel
      by metis
  next
    case fq
    with \<open>scope_steps (meta_id m) s (final_state (full_query s node))\<close> show ?thesis by auto
  next
    case tbl
    with rest show ?thesis by auto
  next
    case sub
    with rest show ?thesis by auto
  next
    case col
    with rest show ?thesis by auto
  next
    case dflt
    with scope_steps.same [of 0 s] show ?thesis by auto
  qed
qed

lemma registry_put_scope:
  "map_of (query_aliases (put_scope i q s)) j =
     (if j = i then Some q else map_of (query_aliases s) j)"
  by (simp add: put_scope_def update_conv')

lemma dom_registry_put_scope [simp]:
  "dom (map_of (query_aliases (put_scope i q s))) = insert i (dom (map_of (query_aliases s)))"
  by (simp add: put_scope_def update_conv')

lemma dom_registry_setdefault [simp]:
  "dom (map_of (setdefault i q d)) = insert i (dom (map_of d))"
  by (auto simp: map_of_setdefault split: if_splits)

lemma snd_columns_getitem:
  "snd (columns_getitem i al s) =
     (case map_of (aliased_columns (the_scope s i)) al of
        Some v \<Rightarrow> s
      | None \<Rightarrow> put_scope i ((the_scope s i)\<lparr>aliased_columns :=
                   aliased_columns (the_scope s i) @ [(al, Some [])]\<rparr>) s)"
  by (simp add: columns_getitem_def Let_def split: option.splits)

lemma the_scope_self_selected [simp]:
  "the_scope (s\<lparr>self_selected_table := x\<rparr>) j = the_scope s j"
  by (simp add: the_scope_def)

lemma the_scope_columns_setitem [simp]:
  "the_scope (columns_setitem i al v s) j =
     (if j = i then (the_scope s i)\<lparr>aliased_columns :=
                      AList.update al v (aliased_columns (the_scope s i))\<rparr>
      else the_scope s j)"
  by (simp add: columns_setitem_def Let_def)

lemma columns_setitem_fields [simp]:
  "heap (columns_setitem i al v s) = heap s"
  "reserved_keywords (columns_setitem i al v s) = reserved_keywords s"
  "self_selected_table (columns_setitem i al v s) = self_selected_table s"
  "dom (map_of (query_aliases (columns_setitem i al v s))) =
     insert i (dom (map_of (query_aliases s)))"
  by (simp_all add: columns_setitem_def Let_def)

lemma the_scope_getitem [simp]:
  "the_scope (snd (columns_getitem i al s)) j =
     (if j = i \<and> map_of (aliased_columns (the_scope s i)) al = None
      then (the_scope s i)\<lparr>aliased_columns := aliased_columns (the_scope s i) @ [(al, Some [])]\<rparr>
      else the_scope s j)"
  by (simp add: snd_columns_getitem split: option.splits)

lemma getitem_fields [simp]:
  "heap (snd (columns_getitem i al s)) = heap s"
  "reserved_keywords (snd (columns_getitem i al s)) = reserved_keywords s"
  "self_selected_table (snd (columns_getitem i al s)) = self_selected_table s"
  by (simp_all add: snd_columns_getitem split: option.splits)

lemma dom_getitem:
  "dom (map_of (query_aliases s)) \<subseteq> dom (map_of (query_aliases (snd (columns_getitem i al s))))"
  by (auto simp: snd_columns_getitem split: option.splits)

lemma registry_getitem_other:
  "j \<noteq> i \<Longrightarrow> map_of (query_aliases (snd (columns_getitem i al s))) j = map_of (query_aliases s) j"
  by (auto simp: snd_columns_getitem registry_put_scope split: option.splits)

lemma dom_map_of_update [simp]:
  "dom (map_of (AList.update k v d)) = insert k (dom (map_of d))"
  by (simp add: update_conv')

lemma dom_map_of_snoc [simp]:
  "dom (map_of (d @ [(k, v)])) = insert k (dom (map_of d))"
  by auto

lemma keeps_keys_refl [simp]: "keeps_keys s s"
  by (simp add: keeps_keys_def)

lemma keeps_keys_trans: "keeps_keys s t \<Longrightarrow> keeps_keys t u \<Longrightarrow> keeps_keys s u"
  unfolding keeps_keys_def by (meson order_trans)

lemma keeps_keys_steps:
  "keeps_keys t (t\<lparr>query_aliases := setdefault i new_QueryAliases (query_aliases t)\<rparr>)"
  "keeps_keys t (put_scope i ((the_scope t i)\<lparr>aliased_tables :=
        AList.update al tn (aliased_tables (the_scope t i))\<rparr>) t)"
  "keeps_keys t (t\<lparr>heap := h\<rparr>)"
  "keeps_keys t (put_scope i ((the_scope t i)\<lparr>subquery_aliases :=
        AList.update al u (subquery_aliases (the_scope t i))\<rparr>) t)"
  "keeps_keys t (snd (columns_getitem i al t))"
  "keeps_keys t (columns_setitem i al v (t\<lparr>heap := h\<rparr>))"
  "keeps_keys t (columns_setitem i al v t)"
  "keeps_keys t (t\<lparr>self_selected_table := x\<rparr>)"
  using dom_getitem [of t i al]
  by (auto simp: keeps_keys_def)

lemma scope_steps_keys: "scope_steps i s t \<Longrightarrow> keeps_keys s t"
  by (induction rule: scope_steps.induct)
     (auto intro: keeps_keys_trans keeps_keys_steps)

lemma visit_node_keys: "keeps_keys s (final_state (visit_node gi icf s node))"
  using visit_node_steps [of gi icf s node]
  by (auto intro: keeps_keys_steps scope_steps_keys)

lemma visit_all_keys: "keeps_keys s (final_state (visit_all gi icf s nodes))"
proof (induction nodes arbitrary: s)
  case Nil
  then show ?case by simp
next
  case (Cons n nodes)
  show ?case
  proof (cases "visit_node gi icf s n")
    case (Inl x)
    with visit_node_keys [of s gi icf n] show ?thesis by simp
  next
    case (Inr s')
    with visit_node_keys [of s gi icf n] Cons.IH [of s'] show ?thesis
      by (auto intro: keeps_keys_trans)
  qed
qed

lemma map_of_update_other: "k' \<noteq> k \<Longrightarrow> map_of (AList.update k v d) k' = map_of d k'"
  by (simp add: update_conv')

lemma map_of_snoc_Some: "map_of d k = Some x \<Longrightarrow> map_of (d @ [e]) k = Some x"
  by (simp add: map_add_def)

lemma scope_steps_none:
  assumes "scope_steps i s t"
    and "map_of (aliased_columns (the_scope s j)) al = Some None"
  shows "map_of (aliased_columns (the_scope t j)) al = Some None"
  using assms
proof (induction rule: scope_steps.induct)
  case (same s)
  then show ?case by auto
next
  case (register s t)
  then show ?case by auto
next
  case (bind_table s t al' tn)
  then show ?case by auto
next
  case (run_backfill s t al' tn)
  then show ?case by auto
next
  case (bind_subquery s t al' u)
  then show ?case by auto
next
  case (read_columns s t al')
  then show ?case by (auto simp: map_of_snoc_Some)
next
  case (set_none s t al')
  then show ?case by (auto simp: update_conv')
next
  case (add_column s t al' refs c)
  then have "j = i \<Longrightarrow> al' \<noteq> al" by auto
  with add_column show ?case by (auto simp: update_conv')
qed

lemma visit_node_none:
  assumes "map_of (aliased_columns (the_scope s j)) al = Some None"
  shows "map_of (aliased_columns (the_scope (final_state (visit_node gi icf s node)) j)) al
           = Some None"
  using visit_node_steps [of gi icf s node] assms
  by (auto dest: scope_steps_none)

lemma entries_refs_append [simp]:
  "entries_refs (xs @ ys) = entries_refs xs \<union> entries_refs ys"
  by (simp add: entries_refs_def)

lemma entries_refs_update:
  "entries_refs (AList.update k v cols) \<subseteq>
     entries_refs cols \<union> (case v of None \<Rightarrow> {} | Some refs \<Rightarrow> set refs)"
proof (induction cols)
  case Nil
  then show ?case by (cases v) simp_all
next
  case (Cons e cols)
  obtain k' v' where e: "e = (k', v')" by (cases e)
  show ?case
  proof (cases "k' = k")
    case True
    then show ?thesis using e by (cases v; cases v') auto
  next
    case False
    then show ?thesis using e Cons by (cases v') auto
  qed
qed

lemma set_add_refs: "set (snd (set_add h refs c)) \<subseteq> set refs \<union> {length h}"
  by (auto simp: set_add_def)

lemma set_add_heap [simp]: "fst (set_add h refs c) = h @ [c]"
  by (simp add: set_add_def)

lemma map_of_entries_refs:
  "map_of cols al = Some (Some refs) \<Longrightarrow> set refs \<subseteq> entries_refs cols"
  by (induction cols) (auto simp: entries_refs_def split: if_splits)

lemma heap_ok_mono:
  assumes "heap_ok t"
    and "\<And>j. scope_refs (the_scope t' j) \<subseteq> scope_refs (the_scope t j)"
    and "length (heap t) \<le> length (heap t')"
  shows "heap_ok t'"
  unfolding heap_ok_def
proof (intro conjI allI ballI impI)
  fix j a assume "a \<in> scope_refs (the_scope t' j)"
  with assms(2) have "a \<in> scope_refs (the_scope t j)" by blast
  with assms(1,3) show "a < length (heap t')" by (fastforce simp: heap_ok_def)
next
  fix j k :: uuid assume "j \<noteq> k"
  with assms(1) have "scope_refs (the_scope t j) \<inter> scope_refs (the_scope t k) = {}"
    by (simp add: heap_ok_def)
  with assms(2) [of j] assms(2) [of k]
  show "scope_refs (the_scope t' j) \<inter> scope_refs (the_scope t' k) = {}" by blast
qed

text \<open>Within the steps of scope \<open>i\<close>, the heap stays well formed and other scopes are untouched.\<close>

lemma scope_steps_frame:
  assumes "scope_steps i s t" and "heap_ok s"
  shows "heap_ok t \<and> length (heap s) \<le> length (heap t) \<and>
     (\<forall>j. j \<noteq> i \<longrightarrow> map_of (query_aliases t) j = map_of (query_aliases s) j \<and>
           the_scope t j = the_scope s j \<and>
           (\<forall>a \<in> scope_refs (the_scope s j). heap t ! a = heap s ! a))"
  using assms
proof (induction rule: scope_steps.induct)
  case (same s)
  then show ?case by simp
next
  case (register s t)
  then have ok: "heap_ok t" by simp
  have "heap_ok (t\<lparr>query_aliases := setdefault i new_QueryAliases (query_aliases t)\<rparr>)"
    by (rule heap_ok_mono [OF ok]) simp_all
  with register show ?case by (simp add: map_of_setdefault)
next
  case (bind_table s t al tn)
  then have ok: "heap_ok t" by simp
  have "heap_ok (put_scope i ((the_scope t i)\<lparr>aliased_tables :=
        AList.update al tn (aliased_tables (the_scope t i))\<rparr>) t)"
    by (rule heap_ok_mono [OF ok]) (simp_all add: scope_refs_def)
  with bind_table show ?case by (simp add: registry_put_scope)
next
  case (run_backfill s t al tn)
  then have ok: "heap_ok t" by simp
  have "\<And>j a. j \<noteq> i \<Longrightarrow> a \<in> scope_refs (the_scope t j) \<Longrightarrow>
      backfill al tn (aliased_columns (the_scope t i)) (heap t) ! a = heap t ! a"
  proof -
    fix j a assume j: "j \<noteq> i" and a: "a \<in> scope_refs (the_scope t j)"
    from ok a have lt: "a < length (heap t)" by (auto simp: heap_ok_def)
    from ok j have "scope_refs (the_scope t j) \<inter> scope_refs (the_scope t i) = {}"
      by (simp add: heap_ok_def)
    with a have "a \<notin> scope_refs (the_scope t i)" by blast
    with lt show "backfill al tn (aliased_columns (the_scope t i)) (heap t) ! a = heap t ! a"
      by (simp add: backfill_nth scope_refs_def)
  qed
  moreover have "heap_ok (t\<lparr>heap := backfill al tn (aliased_columns (the_scope t i)) (heap t)\<rparr>)"
    by (rule heap_ok_mono [OF ok]) simp_all
  ultimately show ?case using run_backfill by simp
next
  case (bind_subquery s t al u)
  then have ok: "heap_ok t" by simp
  have "heap_ok (put_scope i ((the_scope t i)\<lparr>subquery_aliases :=
        AList.update al u (subquery_aliases (the_scope t i))\<rparr>) t)"
    by (rule heap_ok_mono [OF ok]) (simp_all add: scope_refs_def)
  with bind_subquery show ?case by (simp add: registry_put_scope)
next
  case (read_columns s t al)
  then have ok: "heap_ok t" by simp
  have "heap_ok (snd (columns_getitem i al t))"
    by (rule heap_ok_mono [OF ok]) (simp_all add: scope_refs_def)
  with read_columns show ?case by (simp add: registry_getitem_other)
next
  case (set_none s t al)
  then have ok: "heap_ok t" by simp
  have sub: "scope_refs ((the_scope t i)\<lparr>aliased_columns :=
        AList.update al None (aliased_columns (the_scope t i))\<rparr>) \<subseteq> scope_refs (the_scope t i)"
    using entries_refs_update [of al None] by (simp add: scope_refs_def)
  have "heap_ok (columns_setitem i al None t)"
    by (rule heap_ok_mono [OF ok]) (use sub in simp_all)
  with set_none show ?case by (simp add: columns_setitem_def Let_def registry_put_scope)
next
  case (add_column s t al refs c)
  then have ok: "heap_ok t" by simp
  let ?h = "heap t @ [c]"
  let ?refs = "snd (set_add (heap t) refs c)"
  let ?t' = "columns_setitem i al (Some ?refs) (t\<lparr>heap := fst (set_add (heap t) refs c)\<rparr>)"
  have old: "set refs \<subseteq> scope_refs (the_scope t i)"
    using add_column.hyps(2) by (simp add: scope_refs_def map_of_entries_refs)
  have sub: "scope_refs (the_scope ?t' i) \<subseteq> scope_refs (the_scope t i) \<union> {length (heap t)}"
    using entries_refs_update [of al "Some ?refs" "aliased_columns (the_scope t i)"]
      set_add_refs [of "heap t" refs c] old
    by (auto simp: scope_refs_def)
  have other: "\<And>j. j \<noteq> i \<Longrightarrow> the_scope ?t' j = the_scope t j" by simp
  have hp: "heap ?t' = ?h" by simp
  have fresh: "\<And>j. length (heap t) \<notin> scope_refs (the_scope t j)"
    using ok by (auto simp: heap_ok_def)
  have "heap_ok ?t'"
    unfolding heap_ok_def
  proof (intro conjI allI ballI impI)
    fix j a assume "a \<in> scope_refs (the_scope ?t' j)"
    then have "a \<in> scope_refs (the_scope t j) \<or> a = length (heap t)"
      using sub other [of j] by (cases "j = i") auto
    then show "a < length (heap ?t')"
      using ok unfolding hp by (auto simp: heap_ok_def less_Suc_eq)
  next
    fix j k :: uuid assume jk: "j \<noteq> k"
    have d: "scope_refs (the_scope t j) \<inter> scope_refs (the_scope t k) = {}"
      using ok jk by (simp add: heap_ok_def)
    show "scope_refs (the_scope ?t' j) \<inter> scope_refs (the_scope ?t' k) = {}"
    proof (cases "j = i")
      case True
      with jk have "k \<noteq> i" by simp
      with other have "the_scope ?t' k = the_scope t k" by simp
      with sub d True fresh [of k] show ?thesis by auto
    next
      case False
      with other have ej: "the_scope ?t' j = the_scope t j" by simp
      show ?thesis
      proof (cases "k = i")
        case True
        with sub d ej fresh [of j] show ?thesis by auto
      next
        case False
        with other ej d show ?thesis by simp
      qed
    qed
  qed
  moreover have "\<And>j a. j \<noteq> i \<Longrightarrow> a \<in> scope_refs (the_scope t j) \<Longrightarrow> ?h ! a = heap t ! a"
    using ok by (auto simp: heap_ok_def nth_append)
  ultimately show ?case
    using add_column by (simp add: columns_setitem_def Let_def registry_put_scope)
qed

text \<open>Every collector that a traversal reaches from a new collector has a well-formed heap.\<close>

lemma heap_ok_new: "heap_ok (new_AliasCollector kw)"
  by (simp add: heap_ok_def new_AliasCollector_def the_scope_def scope_refs_def
      entries_refs_def new_QueryAliases_def)

lemma visit_node_heap_ok:
  assumes "heap_ok s"
  shows "heap_ok (final_state (visit_node gi icf s node))"
proof -
  from visit_node_steps [of gi icf s node]
  consider t where "final_state (visit_node gi icf s node) = s\<lparr>self_selected_table := Some t\<rparr>"
    | i where "scope_steps i s (final_state (visit_node gi icf s node))"
    by blast
  then show ?thesis
  proof cases
    case 1
    have "heap_ok (s\<lparr>self_selected_table := Some t\<rparr>)"
      by (rule heap_ok_mono [OF assms]) simp_all
    with 1 show ?thesis by simp
  next
    case 2
    from scope_steps_frame [OF this assms] show ?thesis by simp
  qed
qed

lemma visit_all_heap_ok:
  "heap_ok s \<Longrightarrow> heap_ok (final_state (visit_all gi icf s nodes))"
proof (induction nodes arbitrary: s)
  case Nil
  then show ?case by simp
next
  case (Cons n nodes)
  from visit_node_heap_ok [OF Cons.prems, of gi icf n]
  have step: "heap_ok (final_state (visit_node gi icf s n))" .
  show ?case
  proof (cases "visit_node gi icf s n")
    case (Inl x)
    with step show ?thesis by simp
  next
    case (Inr s')
    with step Cons.IH [of s'] show ?thesis by simp
  qed
qed

subsection \<open>Entries that are \<^verbatim>\<open>None\<close>\<close>

lemma visit_all_none:
  assumes "map_of (aliased_columns (the_scope s j)) al = Some None"
  shows "map_of (aliased_columns (the_scope (final_state (visit_all gi icf s nodes)) j)) al
           = Some None"
  using assms
proof (induction nodes arbitrary: s)
  case Nil
  then show ?case by simp
next
  case (Cons n nodes)
  from visit_node_none [OF Cons.prems, of gi icf n]
  have step: "map_of (aliased_columns (the_scope (final_state (visit_node gi icf s n)) j)) al
      = Some None" .
  show ?case
  proof (cases "visit_node gi icf s n")
    case (Inl x)
    with step show ?thesis by simp
  next
    case (Inr s')
    with step Cons.IH [of s'] show ?thesis by simp
  qed
qed

lemma lookup_columns_None_iff:
  "lookup_columns s i al = Some None \<longleftrightarrow>
     map_of (aliased_columns (the_scope s i)) al = Some None"
  by (auto simp: lookup_columns_def)

text \<open>
  C6. If a scope's \<^verbatim>\<open>_aliased_columns\<close> holds \<^verbatim>\<open>None\<close> for an alias, it
  still does after any further traversal of any nodes, and after any single call of
  \<^verbatim>\<open>aliased_column\<close> or \<^verbatim>\<open>aliased_table\<close>, whether the calls return or
  raise: the entry never becomes a set of columns.
\<close>

theorem none_is_permanent:
  assumes "lookup_columns s i alias_name = Some None"
  shows "lookup_columns (final_state (visit_all get_identifier is_count_function s nodes))
           i alias_name = Some None \<and>
         lookup_columns (final_state (aliased_column get_identifier is_count_function s (Tree d cs m)))
           i alias_name = Some None \<and>
         lookup_columns (final_state (aliased_table get_identifier s (Tree d cs m)))
           i alias_name = Some None"
proof -
  from assms have n: "map_of (aliased_columns (the_scope s i)) alias_name = Some None"
    by (simp add: lookup_columns_None_iff)
  from recording_steps [of s get_identifier d cs m is_count_function] obtain k where
    "scope_steps k s (final_state (aliased_table get_identifier s (Tree d cs m)))"
    "scope_steps k s (final_state (aliased_column get_identifier is_count_function s (Tree d cs m)))"
    by blast
  with n have
    "map_of (aliased_columns (the_scope
        (final_state (aliased_table get_identifier s (Tree d cs m))) i)) alias_name = Some None"
    "map_of (aliased_columns (the_scope
        (final_state (aliased_column get_identifier is_count_function s (Tree d cs m))) i))
        alias_name = Some None"
    by (blast dest: scope_steps_none)+
  with visit_all_none [OF n, of get_identifier is_count_function nodes]
  show ?thesis by (simp add: lookup_columns_None_iff)
qed

theorem none_is_permanent_witness:
  "lookup_columns count_recorded 1 ''n'' = Some None \<and>
   lookup_columns (final_state (visit_all plain_identifier count_star count_recorded
       [table_as 1 ''t1'' ''t'', column_as 1 (fq ''t'' ''col'') ''n''])) 1 ''n'' = Some None"
proof -
  have h: "lookup_columns count_recorded 1 ''n'' = Some None"
    by (simp add: lookup_columns_def count_recorded_def the_scope_def)
  from none_is_permanent [OF h, of plain_identifier count_star
      "[table_as 1 ''t1'' ''t'', column_as 1 (fq ''t'' ''col'') ''n'']"]
  show ?thesis using h by simp
qed

subsection \<open>Nothing recorded is discarded\<close>

text \<open>
  C10. From a collector to the collector that any traversal leaves behind (returned or
  raised), every scope id of the registry is still registered and every key of every scope's
  \<^verbatim>\<open>_aliased_tables\<close>, \<^verbatim>\<open>_subquery_aliases\<close> and
  \<^verbatim>\<open>_aliased_columns\<close> is still a key (what a key is bound to can be replaced: an
  alias can be bound again, a column entry can become \<^verbatim>\<open>None\<close>). The registry
  entry is get-or-create: on a
  scope that is registered, \<^verbatim>\<open>full_query\<close> and the scope lookup leave the whole
  collector as it is.
\<close>

theorem aliases_never_discarded:
  "(let t = final_state (visit_all get_identifier is_count_function s nodes) in
      dom (map_of (query_aliases s)) \<subseteq> dom (map_of (query_aliases t)) \<and>
      (\<forall>j. dom (map_of (aliased_tables (the_scope s j)))
             \<subseteq> dom (map_of (aliased_tables (the_scope t j))) \<and>
           dom (map_of (subquery_aliases (the_scope s j)))
             \<subseteq> dom (map_of (subquery_aliases (the_scope t j))) \<and>
           dom (map_of (aliased_columns (the_scope s j)))
             \<subseteq> dom (map_of (aliased_columns (the_scope t j))))) \<and>
   (map_of (query_aliases s) (meta_id m) = Some q \<longrightarrow> full_query s (Tree d cs m) = Inr s) \<and>
   (map_of (query_aliases s) i = Some q \<and> find_scope (meta_parent m) = Some i \<longrightarrow>
      alias_scope s (Tree d cs m) = Inr (i, s))"
proof -
  have "keeps_keys s (final_state (visit_all get_identifier is_count_function s nodes))"
    by (rule visit_all_keys)
  moreover have "map_of (query_aliases s) (meta_id m) = Some q \<longrightarrow>
      full_query s (Tree d cs m) = Inr s"
    by (simp add: full_query_def setdefault_def)
  moreover have "map_of (query_aliases s) i = Some q \<and> find_scope (meta_parent m) = Some i \<longrightarrow>
      alias_scope s (Tree d cs m) = Inr (i, s)"
    by (simp add: alias_scope_def setdefault_def)
  ultimately show ?thesis
    unfolding keeps_keys_def Let_def by blast
qed

theorem aliases_never_discarded_witness:
  "full_query amt_backfilled (query_node 1) = Inr amt_backfilled \<and>
   (\<exists>y. map_of (aliased_tables (the_scope (final_state
      (visit_all plain_identifier count_star amt_backfilled
         [table_as 1 ''film'' ''f'', query_node 1])) 1)) ''r'' = Some y)"
proof -
  let ?t = "final_state (visit_all plain_identifier count_star amt_backfilled
         [table_as 1 ''film'' ''f'', query_node 1])"
  let ?q = "\<lparr>aliased_tables = [(''r'', ''rental'')], aliased_columns = [(''amt'', Some [0])],
              qa_selected_table = None, subquery_aliases = []\<rparr>"
  note inst = aliases_never_discarded [of plain_identifier count_star amt_backfilled
      "[table_as 1 ''film'' ''f'', query_node 1]" "Meta 1 None" ?q "''full_query''" "[]" 1]
  have reg: "map_of (query_aliases amt_backfilled) (meta_id (Meta 1 None)) = Some ?q"
    by (simp add: amt_backfilled_def)
  from inst reg have a: "full_query amt_backfilled (query_node 1) = Inr amt_backfilled"
    unfolding query_node_def by blast
  from inst have "dom (map_of (aliased_tables (the_scope amt_backfilled 1)))
             \<subseteq> dom (map_of (aliased_tables (the_scope ?t 1)))"
    unfolding Let_def by blast
  moreover have "''r'' \<in> dom (map_of (aliased_tables (the_scope amt_backfilled 1)))"
    by (simp add: amt_backfilled_def the_scope_def)
  ultimately have "''r'' \<in> dom (map_of (aliased_tables (the_scope ?t 1)))" by blast
  then have "\<exists>y. map_of (aliased_tables (the_scope ?t 1)) ''r'' = Some y" by blast
  with a show ?thesis by simp
qed

subsection \<open>Scopes are isolated\<close>


subsection \<open>Column aliases\<close>


lemma add_column_lookup:
  fixes c :: FqColumn
  assumes ok: "heap_ok s2"
    and ent: "map_of (aliased_columns (the_scope s2 i)) al = Some (Some refs)"
  defines "s3 \<equiv> columns_setitem i al (Some (snd (set_add (heap s2) refs c)))
                   (s2\<lparr>heap := fst (set_add (heap s2) refs c)\<rparr>)"
  shows "lookup_columns s3 i al = Some (Some (insert c (column_values s2 refs)))"
    and "aliased_tables (the_scope s3 i) = aliased_tables (the_scope s2 i)"
    and "reserved_keywords s3 = reserved_keywords s2"
proof -
  have valid: "\<forall>a \<in> set refs. a < length (heap s2)"
    using ok map_of_entries_refs [OF ent] by (auto simp: heap_ok_def scope_refs_def)
  then have old: "(\<lambda>a. (heap s2 @ [c]) ! a) ` set refs = column_values s2 refs"
    unfolding column_values_def by (intro image_cong) (auto simp: nth_append)
  have "column_values s3 (snd (set_add (heap s2) refs c)) = insert c (column_values s2 refs)"
  proof (cases "c \<in> set (map (nth (heap s2)) refs)")
    case True
    then have "c \<in> column_values s2 refs" by (simp add: column_values_def)
    with True old show ?thesis
      by (auto simp: s3_def set_add_def column_values_def)
  next
    case False
    with old show ?thesis
      by (simp add: s3_def set_add_def column_values_def)
  qed
  then show "lookup_columns s3 i al = Some (Some (insert c (column_values s2 refs)))"
    by (simp add: lookup_columns_def s3_def update_conv')
  show "aliased_tables (the_scope s3 i) = aliased_tables (the_scope s2 i)"
    by (simp add: s3_def)
  show "reserved_keywords s3 = reserved_keywords s2"
    by (simp add: s3_def)
qed

lemma getitem_values:
  assumes "columns_getitem i al s1 = (Some refs, s2)"
  shows "column_values s2 refs = recorded_columns s1 i al"
  using assms
  by (auto simp: columns_getitem_def Let_def recorded_columns_def lookup_columns_def
      column_values_def split: option.splits)

lemma column_values_registry [simp]:
  "column_values (s\<lparr>query_aliases := x\<rparr>) = column_values s"
  by (rule ext) (simp add: column_values_def)

lemma recorded_columns_register [simp]:
  "recorded_columns (s\<lparr>query_aliases := setdefault i new_QueryAliases (query_aliases s)\<rparr>) j al
     = recorded_columns s j al"
  by (simp add: recorded_columns_def lookup_columns_def)

lemma recorded_columns_of_set:
  "lookup_columns s i al = Some (Some S) \<Longrightarrow> recorded_columns s i al = S"
  by (simp add: recorded_columns_def)

lemma column_loop_Inr:
  assumes sc: "find_scope (meta_parent m) = Some i"
  shows "heap_ok s \<Longrightarrow> column_loop gi (Tree d cs m) i al ns s b = Inr (b', s') \<Longrightarrow>
     b' = (b \<or> ns \<noteq> []) \<and> heap_ok s' \<and>
     aliased_tables (the_scope s' i) = aliased_tables (the_scope s i) \<and>
     reserved_keywords s' = reserved_keywords s \<and>
     (ns = [] \<longrightarrow> s' = s) \<and>
     (\<exists>rs. map (fq_reference gi (reserved_keywords s)) ns = map Some rs \<and>
        (ns \<noteq> [] \<longrightarrow> lookup_columns s' i al =
           Some (Some (recorded_columns s i al \<union>
             (\<lambda>(t, c). \<lparr>table = dict_get (aliased_tables (the_scope s i)) t t, column = c\<rparr>)
               ` set rs))))"
proof (induction ns arbitrary: s b)
  case Nil
  then show ?case by simp
next
  case (Cons n ns)
  let ?node = "Tree d cs m"
  let ?s1 = "s\<lparr>query_aliases := setdefault i new_QueryAliases (query_aliases s)\<rparr>"
  let ?kw = "reserved_keywords s"
  let ?res = "\<lambda>(t, c). \<lparr>table = dict_get (aliased_tables (the_scope s i)) t t, column = c\<rparr>"
  have rt: "\<And>t. resolve_table s ?node t = Inr (dict_get (aliased_tables (the_scope s i)) t t, ?s1)"
    using sc by (simp add: resolve_table_def alias_scope_def)
  from Cons.prems(2) obtain d' cs' m' where n: "n = Tree d' cs' m'"
    by (cases n) auto
  from Cons.prems(2) n obtain tnode cnode where cs': "cs' = [tnode, cnode]"
    by (auto split: list.splits)
  from Cons.prems(2) n cs' obtain t where tn: "gi tnode ?kw = Inr t"
    by (auto split: sum.splits)
  from Cons.prems(2) n cs' tn obtain c where cn: "gi cnode ?kw = Inr c"
    by (auto split: sum.splits)
  obtain v s2 where gt: "columns_getitem i al ?s1 = (v, s2)"
    by (cases "columns_getitem i al ?s1")
  from Cons.prems(2) n cs' tn cn rt gt obtain refs where v: "v = Some refs"
    by (cases v) auto
  let ?c = "\<lparr>table = dict_get (aliased_tables (the_scope s i)) t t, column = c\<rparr>"
  let ?s3 = "columns_setitem i al (Some (snd (set_add (heap s2) refs ?c)))
               (s2\<lparr>heap := fst (set_add (heap s2) refs ?c)\<rparr>)"
  have rec: "column_loop gi ?node i al ns ?s3 True = Inr (b', s')"
    using Cons.prems(2) n cs' tn cn rt gt v by (simp add: split_beta Let_def)
  have s2: "s2 = snd (columns_getitem i al ?s1)" using gt by simp
  have st2: "scope_steps i s s2"
    unfolding s2 by (intro scope_steps.read_columns scope_steps.register scope_steps.same)
  have ok2: "heap_ok s2"
    using scope_steps_frame [OF st2 Cons.prems(1)] by simp
  have ent: "map_of (aliased_columns (the_scope s2 i)) al = Some (Some refs)"
    using columns_getitem_entry [OF gt] v by simp
  have st3: "scope_steps i s ?s3"
    using scope_steps.add_column [OF st2 ent] .
  have ok3: "heap_ok ?s3"
    using scope_steps_frame [OF st3 Cons.prems(1)] by simp
  have vals: "column_values s2 refs = recorded_columns s i al"
    using getitem_values [of i al ?s1 refs s2] gt v by simp
  have look3: "lookup_columns ?s3 i al = Some (Some (insert ?c (recorded_columns s i al)))"
    using add_column_lookup(1) [OF ok2 ent, of ?c] vals by simp
  have tab3: "aliased_tables (the_scope ?s3 i) = aliased_tables (the_scope s i)"
    using add_column_lookup(2) [OF ok2 ent, of ?c] by (simp add: s2)
  have kw3: "reserved_keywords ?s3 = ?kw"
    using add_column_lookup(3) [OF ok2 ent, of ?c] by (simp add: s2)
  from Cons.IH [OF ok3 rec] obtain rs where
    b': "b' = (True \<or> ns \<noteq> [])" and ok': "heap_ok s'"
    and tab': "aliased_tables (the_scope s' i) = aliased_tables (the_scope ?s3 i)"
    and kw': "reserved_keywords s' = reserved_keywords ?s3"
    and nil: "ns = [] \<longrightarrow> s' = ?s3"
    and rs: "map (fq_reference gi (reserved_keywords ?s3)) ns = map Some rs"
    and look: "ns \<noteq> [] \<longrightarrow> lookup_columns s' i al =
           Some (Some (recorded_columns ?s3 i al \<union>
             (\<lambda>(t, c). \<lparr>table = dict_get (aliased_tables (the_scope ?s3 i)) t t, column = c\<rparr>)
               ` set rs))"
    by blast
  have fr: "fq_reference gi ?kw n = Some (t, c)"
    using n cs' tn cn by simp
  have maps: "map (fq_reference gi ?kw) (n # ns) = map Some ((t, c) # rs)"
    using fr rs kw3 by simp
  have final: "lookup_columns s' i al =
      Some (Some (recorded_columns s i al \<union> ?res ` set ((t, c) # rs)))"
  proof (cases "ns = []")
    case True
    with nil rs have "s' = ?s3" "rs = []" by simp_all
    with look3 show ?thesis by simp
  next
    case False
    have "lookup_columns s' i al =
           Some (Some (recorded_columns ?s3 i al \<union> ?res ` set rs))"
      using look False unfolding tab3 by blast
    moreover have "recorded_columns ?s3 i al = insert ?c (recorded_columns s i al)"
      using look3 by (rule recorded_columns_of_set)
    ultimately show ?thesis by simp
  qed
  have ex: "\<exists>rs'. map (fq_reference gi ?kw) (n # ns) = map Some rs' \<and>
      (n # ns \<noteq> [] \<longrightarrow> lookup_columns s' i al =
         Some (Some (recorded_columns s i al \<union> ?res ` set rs')))"
    using maps final by blast
  have "b' = (b \<or> n # ns \<noteq> [])" using b' by simp
  moreover have "aliased_tables (the_scope s' i) = aliased_tables (the_scope s i)"
    using tab' tab3 by simp
  moreover have "reserved_keywords s' = reserved_keywords s"
    using kw' kw3 by simp
  ultimately show ?case using ok' ex by simp
qed

lemma lookup_columns_setitem_None:
  "lookup_columns (columns_setitem i al None s) i al = Some None"
  by (simp add: lookup_columns_def update_conv')

lemma aliased_column_Inr:
  assumes run: "aliased_column gi icf s node = Inr s'" and ok: "heap_ok s"
  shows "\<exists>d value_node as_token alias_node m alias_name i rs.
    node = Tree d [value_node, as_token, alias_node] m \<and>
    find_scope (meta_parent m) = Some i \<and>
    gi alias_node (reserved_keywords s) = Inr alias_name \<and>
    (icf value_node \<or> find_data ''fq_column'' value_node = [] \<longrightarrow>
       lookup_columns s' i alias_name = Some None) \<and>
    (\<not> icf value_node \<and> find_data ''fq_column'' value_node \<noteq> [] \<longrightarrow>
       map (fq_reference gi (reserved_keywords s)) (find_data ''fq_column'' value_node)
         = map Some rs \<and>
       lookup_columns s' i alias_name =
         Some (Some (recorded_columns s i alias_name \<union>
           (\<lambda>(t, c). \<lparr>table = dict_get (aliased_tables (the_scope s i)) t t, column = c\<rparr>)
             ` set rs)))"
proof -
  from run obtain i s1 where sc: "alias_scope s node = Inr (i, s1)"
    by (auto simp: aliased_column_def split: sum.splits)
  then obtain d cs m where node: "node = Tree d cs m"
    and fs: "find_scope (meta_parent m) = Some i"
    and s1: "s1 = s\<lparr>query_aliases := setdefault i new_QueryAliases (query_aliases s)\<rparr>"
    by (auto simp: alias_scope_Inr)
  from run sc node obtain value_node as_token alias_node
    where cs: "cs = [value_node, as_token, alias_node]"
    by (auto simp: aliased_column_def split: list.splits)
  from run sc node cs obtain alias_name
    where al: "gi alias_node (reserved_keywords s1) = Inr alias_name"
    by (auto simp: aliased_column_def split: sum.splits)
  have kw1: "reserved_keywords s1 = reserved_keywords s" by (simp add: s1)
  have ok1: "heap_ok s1"
    using scope_steps_frame [OF scope_steps.register [OF scope_steps.same], of s i] ok
    by (simp add: s1)
  let ?ns = "find_data ''fq_column'' value_node"
  let ?res = "\<lambda>(t, c). \<lparr>table = dict_get (aliased_tables (the_scope s i)) t t, column = c\<rparr>"
  show ?thesis
  proof (cases "icf value_node")
    case True
    with run sc node cs al have "s' = columns_setitem i alias_name None s1"
      by (simp add: aliased_column_def)
    then have "lookup_columns s' i alias_name = Some None"
      by (simp add: lookup_columns_setitem_None)
    with node cs fs al kw1 True show ?thesis by simp
  next
    case nc: False
    from run sc node cs al nc obtain d' cs' m' where vn: "value_node = Tree d' cs' m'"
      by (cases value_node) (auto simp: aliased_column_def)
    from run sc node cs al nc vn obtain b s2 where
      lp: "column_loop gi (Tree d cs m) i alias_name ?ns s1 False = Inr (b, s2)"
      and fin: "s' = (if \<not> b then columns_setitem i alias_name None s2 else s2)"
      by (auto simp: aliased_column_def split: sum.splits if_splits)
    from column_loop_Inr [OF fs ok1 lp] obtain rs where
      b: "b = (?ns \<noteq> [])"
      and nil: "?ns = [] \<longrightarrow> s2 = s1"
      and rs: "map (fq_reference gi (reserved_keywords s1)) ?ns = map Some rs"
      and look: "?ns \<noteq> [] \<longrightarrow> lookup_columns s2 i alias_name =
           Some (Some (recorded_columns s1 i alias_name \<union>
             (\<lambda>(t, c). \<lparr>table = dict_get (aliased_tables (the_scope s1 i)) t t, column = c\<rparr>)
               ` set rs))"
      by auto
    have none: "?ns = [] \<Longrightarrow> lookup_columns s' i alias_name = Some None"
      using fin b by (simp add: lookup_columns_setitem_None)
    have some: "?ns \<noteq> [] \<Longrightarrow>
       map (fq_reference gi (reserved_keywords s)) ?ns = map Some rs \<and>
       lookup_columns s' i alias_name =
         Some (Some (recorded_columns s i alias_name \<union> ?res ` set rs))"
      using fin b rs look by (simp add: s1)
    from node cs fs al kw1 nc none some show ?thesis by auto
  qed
qed

lemma map_Some_mem:
  "map f ns = map Some rs \<Longrightarrow> x \<in> set rs \<longleftrightarrow> (\<exists>n \<in> set ns. f n = Some x)"
  by (induction ns arbitrary: rs) auto

lemma map_Some_all: "map f ns = map Some rs \<Longrightarrow> \<forall>n \<in> set ns. f n \<noteq> None"
  by (induction ns arbitrary: rs) auto

text \<open>
  What \<^verbatim>\<open>aliased_column\<close> has done when it returns: the alias's entry in the
  node's scope is \<^verbatim>\<open>None\<close> exactly when the expression is a count-style aggregate
  or has no \<^verbatim>\<open>fq_column\<close> subtree; otherwise every \<^verbatim>\<open>fq_column\<close> subtree
  reads as a table part and a column part, and the entry is a set holding what the alias
  held before together with one column for each of these references, its table part looked
  up in the scope's \<^verbatim>\<open>_aliased_tables\<close>.
\<close>

lemma aliased_column_on_return:
  assumes "aliased_column get_identifier is_count_function s node = Inr s'" and "heap_ok s"
  shows "\<exists>d value_node as_token alias_node m alias_name i rs.
     node = Tree d [value_node, as_token, alias_node] m \<and>
     find_scope (meta_parent m) = Some i \<and>
     get_identifier alias_node (reserved_keywords s) = Inr alias_name \<and>
     (lookup_columns s' i alias_name = Some None \<longleftrightarrow>
        (is_count_function value_node \<or> find_data ''fq_column'' value_node = [])) \<and>
     (\<not> is_count_function value_node \<and> find_data ''fq_column'' value_node \<noteq> [] \<longrightarrow>
        map (fq_reference get_identifier (reserved_keywords s))
            (find_data ''fq_column'' value_node) = map Some rs \<and>
        lookup_columns s' i alias_name =
          Some (Some (recorded_columns s i alias_name \<union>
            (\<lambda>(t, c). \<lparr>table = dict_get (aliased_tables (the_scope s i)) t t, column = c\<rparr>)
              ` set rs)))"
proof -
  from aliased_column_Inr [OF assms]
  obtain d value_node as_token alias_node m alias_name i rs where
    node: "node = Tree d [value_node, as_token, alias_node] m"
    and fs: "find_scope (meta_parent m) = Some i"
    and al: "get_identifier alias_node (reserved_keywords s) = Inr alias_name"
    and none: "is_count_function value_node \<or> find_data ''fq_column'' value_node = [] \<longrightarrow>
       lookup_columns s' i alias_name = Some None"
    and some: "\<not> is_count_function value_node \<and> find_data ''fq_column'' value_node \<noteq> [] \<longrightarrow>
       map (fq_reference get_identifier (reserved_keywords s))
           (find_data ''fq_column'' value_node) = map Some rs \<and>
       lookup_columns s' i alias_name =
         Some (Some (recorded_columns s i alias_name \<union>
           (\<lambda>(t, c). \<lparr>table = dict_get (aliased_tables (the_scope s i)) t t, column = c\<rparr>)
             ` set rs))"
    by (elim exE conjE)
  have iff: "lookup_columns s' i alias_name = Some None \<longleftrightarrow>
        (is_count_function value_node \<or> find_data ''fq_column'' value_node = [])"
    using none some by fastforce
  from node fs al iff some show ?thesis by blast
qed

lemma aliased_column_on_return_example:
  "aliased_column plain_identifier count_star amt_backfilled
        (column_as 1 (sum_of (fq ''r'' ''amt'') (fq ''f'' ''fee'')) ''total'') = Inr total_recorded \<and>
   lookup_columns total_recorded 1 ''total'' =
     Some (Some {\<lparr>table = ''rental'', column = ''amt''\<rparr>, \<lparr>table = ''f'', column = ''fee''\<rparr>})"
proof -
  let ?e = "sum_of (fq ''r'' ''amt'') (fq ''f'' ''fee'')"
  have run: "aliased_column plain_identifier count_star amt_backfilled
        (column_as 1 ?e ''total'') = Inr total_recorded"
    by (simp add: aliased_column_def amt_backfilled_def column_as_def sum_of_def fq_def in_query_def
        alias_scope_def setdefault_def count_star_def find_data_def resolve_table_def
        the_scope_def put_scope_def dict_get_def columns_getitem_def columns_setitem_def
        set_add_def total_recorded_def)
  have ok: "heap_ok amt_backfilled"
    by (auto simp: heap_ok_def amt_backfilled_def the_scope_def scope_refs_def entries_refs_def
        new_QueryAliases_def split: if_splits)
  from aliased_column_on_return [OF run ok]
  obtain d value_node as_token alias_node m alias_name i rs where
    node: "column_as 1 ?e ''total'' = Tree d [value_node, as_token, alias_node] m"
    and fs: "find_scope (meta_parent m) = Some i"
    and al: "plain_identifier alias_node (reserved_keywords amt_backfilled) = Inr alias_name"
    and some: "\<not> count_star value_node \<and> find_data ''fq_column'' value_node \<noteq> [] \<longrightarrow>
        map (fq_reference plain_identifier (reserved_keywords amt_backfilled))
            (find_data ''fq_column'' value_node) = map Some rs \<and>
        lookup_columns total_recorded i alias_name =
          Some (Some (recorded_columns amt_backfilled i alias_name \<union>
            (\<lambda>(t, c). \<lparr>table = dict_get (aliased_tables (the_scope amt_backfilled i)) t t,
                         column = c\<rparr>) ` set rs))"
    by (elim exE conjE)
  from node fs al have ids: "value_node = ?e" "alias_name = ''total''" "i = 1"
    by (auto simp: column_as_def in_query_def amt_backfilled_def)
  have pre: "\<not> count_star ?e \<and> find_data ''fq_column'' ?e \<noteq> []"
    by (simp add: count_star_def sum_of_def fq_def find_data_def)
  have refs: "map (fq_reference plain_identifier (reserved_keywords amt_backfilled))
            (find_data ''fq_column'' ?e) = map Some [(''r'', ''amt''), (''f'', ''fee'')]"
    by (simp add: sum_of_def fq_def find_data_def amt_backfilled_def)
  from some ids pre refs have rs: "rs = [(''r'', ''amt''), (''f'', ''fee'')]"
    by (auto simp: Cons_eq_map_conv)
  from some ids pre have "lookup_columns total_recorded 1 ''total'' =
          Some (Some (recorded_columns amt_backfilled 1 ''total'' \<union>
            (\<lambda>(t, c). \<lparr>table = dict_get (aliased_tables (the_scope amt_backfilled 1)) t t,
                         column = c\<rparr>) ` set rs))"
    by simp
  then have "lookup_columns total_recorded 1 ''total'' =
     Some (Some {\<lparr>table = ''rental'', column = ''amt''\<rparr>, \<lparr>table = ''f'', column = ''fee''\<rparr>})"
    unfolding rs
    by (simp add: recorded_columns_def lookup_columns_def amt_backfilled_def the_scope_def dict_get_def)
  with run show ?thesis by simp
qed

text \<open>
  C3, at two failing inputs. First, \<^verbatim>\<open>COUNT(*) AS n\<close> has left
  \<^verbatim>\<open>None\<close> under \<^verbatim>\<open>n\<close>; a second column alias \<^verbatim>\<open>t.col AS n\<close> is
  not a count and has one column reference, which reads as \<^verbatim>\<open>t\<close> and
  \<^verbatim>\<open>col\<close>: \<^verbatim>\<open>aliased_column\<close> calls \<^verbatim>\<open>add\<close> on
  \<^verbatim>\<open>None\<close> and raises \<^verbatim>\<open>AttributeError\<close>; no column is added. Second,
  an aliased expression that is a bare token is not a count and has no column reference:
  \<^verbatim>\<open>aliased_column\<close> raises \<^verbatim>\<open>AttributeError\<close> at
  \<^verbatim>\<open>find_data\<close> and records nothing under the alias, not \<^verbatim>\<open>None\<close>.
\<close>

theorem aliased_column_raises:
  "visit_all plain_identifier count_star (new_AliasCollector {})
     [query_node 1, column_as 1 count_call ''n''] = Inr count_recorded \<and>
   lookup_columns count_recorded 1 ''n'' = Some None \<and>
   \<not> count_star (fq ''t'' ''col'') \<and>
   find_data ''fq_column'' (fq ''t'' ''col'') = [fq ''t'' ''col''] \<and>
   fq_reference plain_identifier {} (fq ''t'' ''col'') = Some (''t'', ''col'') \<and>
   aliased_column plain_identifier count_star count_recorded
     (column_as 1 (fq ''t'' ''col'') ''n'') = Inl (AttributeError, count_recorded) \<and>
   \<not> count_star (Token ''1'') \<and>
   find_data ''fq_column'' (Token ''1'') = [] \<and>
   (\<exists>s. aliased_column plain_identifier count_star (new_AliasCollector {})
          (literal_as ''1'' ''one'') = Inl (AttributeError, s) \<and>
        lookup_columns s 1 ''one'' = None)"
proof (intro conjI)
  show "visit_all plain_identifier count_star (new_AliasCollector {})
     [query_node 1, column_as 1 count_call ''n''] = Inr count_recorded"
    by (simp add: visit_node_def full_query_def query_node_def column_as_def count_call_def
        aliased_column_def new_AliasCollector_def count_recorded_def in_query_def
        new_QueryAliases_def alias_scope_def setdefault_def count_star_def the_scope_def
        put_scope_def columns_setitem_def)
  show "lookup_columns count_recorded 1 ''n'' = Some None"
    by (simp add: lookup_columns_def count_recorded_def the_scope_def)
  show "\<not> count_star (fq ''t'' ''col'')"
    by (simp add: count_star_def fq_def)
  show "find_data ''fq_column'' (fq ''t'' ''col'') = [fq ''t'' ''col'']"
    by (simp add: find_data_def fq_def)
  show "fq_reference plain_identifier {} (fq ''t'' ''col'') = Some (''t'', ''col'')"
    by (simp add: fq_def)
  show "aliased_column plain_identifier count_star count_recorded
     (column_as 1 (fq ''t'' ''col'') ''n'') = Inl (AttributeError, count_recorded)"
    by (simp add: aliased_column_def count_recorded_def column_as_def fq_def in_query_def
        alias_scope_def setdefault_def count_star_def find_data_def resolve_table_def
        the_scope_def dict_get_def columns_getitem_def)
  show "\<not> count_star (Token ''1'')"
    by (simp add: count_star_def)
  show "find_data ''fq_column'' (Token ''1'') = []"
    by (simp add: find_data_def)
  show "\<exists>s. aliased_column plain_identifier count_star (new_AliasCollector {})
          (literal_as ''1'' ''one'') = Inl (AttributeError, s) \<and>
        lookup_columns s 1 ''one'' = None"
    by (simp add: aliased_column_def literal_as_def column_as_def in_query_def
        alias_scope_def setdefault_def count_star_def new_AliasCollector_def
        lookup_columns_def the_scope_def new_QueryAliases_def)
qed

text \<open>
  C7, as the code has it. For an expression that is not a count-style aggregate and has
  column references, the columns of the alias after \<^verbatim>\<open>aliased_column\<close> returned
  are those it had before and, for every reference \<open>t.c\<close> of the expression, the column
  \<open>c\<close> of the table that \<^verbatim>\<open>_aliased_tables\<close> binds \<open>t\<close> to, or of \<open>t\<close> itself
  if it binds nothing to \<open>t\<close>: a single lookup, which does not follow a chain of aliases.
\<close>

theorem aliased_column_single_lookup:
  assumes "aliased_column get_identifier is_count_function s
             (Tree d [value_node, as_token, alias_node] m) = Inr s'"
    and "heap_ok s"
    and "\<not> is_count_function value_node"
    and "find_data ''fq_column'' value_node \<noteq> []"
  shows "\<exists>i alias_name.
     find_scope (meta_parent m) = Some i \<and>
     get_identifier alias_node (reserved_keywords s) = Inr alias_name \<and>
     (\<forall>n \<in> set (find_data ''fq_column'' value_node).
        fq_reference get_identifier (reserved_keywords s) n \<noteq> None) \<and>
     recorded_columns s' i alias_name =
       recorded_columns s i alias_name \<union>
       {\<lparr>table = (case map_of (aliased_tables (the_scope s i)) t of Some x \<Rightarrow> x | None \<Rightarrow> t),
         column = c\<rparr> | t c.
          \<exists>n \<in> set (find_data ''fq_column'' value_node).
            fq_reference get_identifier (reserved_keywords s) n = Some (t, c)}"
proof -
  let ?ns = "find_data ''fq_column'' value_node"
  let ?kw = "reserved_keywords s"
  from aliased_column_Inr [OF assms(1,2)] assms(3,4)
  obtain i alias_name rs where
    fs: "find_scope (meta_parent m) = Some i"
    and al: "get_identifier alias_node ?kw = Inr alias_name"
    and rs: "map (fq_reference get_identifier ?kw) ?ns = map Some rs"
    and look: "lookup_columns s' i alias_name =
         Some (Some (recorded_columns s i alias_name \<union>
           (\<lambda>(t, c). \<lparr>table = dict_get (aliased_tables (the_scope s i)) t t, column = c\<rparr>)
             ` set rs))"
    by auto
  have mem: "\<And>t c. (t, c) \<in> set rs \<longleftrightarrow>
      (\<exists>n \<in> set ?ns. fq_reference get_identifier ?kw n = Some (t, c))"
    using rs by (rule map_Some_mem)
  have all: "\<forall>n \<in> set ?ns. fq_reference get_identifier ?kw n \<noteq> None"
    using rs by (rule map_Some_all)
  have "(\<lambda>(t, c). \<lparr>table = dict_get (aliased_tables (the_scope s i)) t t, column = c\<rparr>) ` set rs =
      {\<lparr>table = (case map_of (aliased_tables (the_scope s i)) t of Some x \<Rightarrow> x | None \<Rightarrow> t),
         column = c\<rparr> | t c.
          \<exists>n \<in> set ?ns. fq_reference get_identifier ?kw n = Some (t, c)}"
    (is "?L = ?R")
  proof (intro set_eqI iffI)
    fix x assume "x \<in> ?L"
    then obtain t c where "(t, c) \<in> set rs"
      and "x = \<lparr>table = dict_get (aliased_tables (the_scope s i)) t t, column = c\<rparr>"
      by auto
    with mem [of t c] show "x \<in> ?R" by (auto simp: dict_get_def)
  next
    fix x assume "x \<in> ?R"
    then obtain t c where "\<exists>n \<in> set ?ns. fq_reference get_identifier ?kw n = Some (t, c)"
      and x: "x = \<lparr>table = (case map_of (aliased_tables (the_scope s i)) t of
                              Some x \<Rightarrow> x | None \<Rightarrow> t), column = c\<rparr>"
      by blast
    with mem [of t c] have "(t, c) \<in> set rs" by simp
    then have "(\<lambda>(t, c). \<lparr>table = dict_get (aliased_tables (the_scope s i)) t t, column = c\<rparr>)
        (t, c) \<in> ?L"
      by (rule imageI)
    with x show "x \<in> ?L" by (simp add: dict_get_def)
  qed
  with look have "recorded_columns s' i alias_name = recorded_columns s i alias_name \<union> ?R"
    by (simp add: recorded_columns_def)
  with fs al all show ?thesis by blast
qed

theorem aliased_column_single_lookup_witness:
  "aliased_column plain_identifier count_star alias_chain (column_as 1 (fq ''a'' ''x'') ''n'')
     = Inr alias_chain_recorded \<and>
   \<lparr>table = ''b'', column = ''x''\<rparr> \<in> recorded_columns alias_chain_recorded 1 ''n''"
proof -
  let ?e = "fq ''a'' ''x''"
  have run: "aliased_column plain_identifier count_star alias_chain
      (Tree ''aliased_column'' [?e, Token ''AS'', Token ''n''] (Meta 401 (in_query 1)))
     = Inr alias_chain_recorded"
    by (simp add: aliased_column_def alias_chain_def fq_def in_query_def
        alias_scope_def setdefault_def count_star_def find_data_def resolve_table_def
        the_scope_def put_scope_def dict_get_def columns_getitem_def columns_setitem_def
        set_add_def alias_chain_recorded_def)
  have ok: "heap_ok alias_chain"
    by (auto simp: heap_ok_def alias_chain_def the_scope_def scope_refs_def entries_refs_def
        new_QueryAliases_def split: if_splits)
  have nc: "\<not> count_star ?e" by (simp add: count_star_def fq_def)
  have ne: "find_data ''fq_column'' ?e \<noteq> []" by (simp add: find_data_def fq_def)
  from aliased_column_single_lookup [OF run ok nc ne]
  obtain i alias_name where
    fs: "find_scope (meta_parent (Meta 401 (in_query 1))) = Some i"
    and al: "plain_identifier (Token ''n'') (reserved_keywords alias_chain) = Inr alias_name"
    and eq: "recorded_columns alias_chain_recorded i alias_name =
       recorded_columns alias_chain i alias_name \<union>
       {\<lparr>table = (case map_of (aliased_tables (the_scope alias_chain i)) t of
                    Some x \<Rightarrow> x | None \<Rightarrow> t), column = c\<rparr> | t c.
          \<exists>n \<in> set (find_data ''fq_column'' ?e).
            fq_reference plain_identifier (reserved_keywords alias_chain) n = Some (t, c)}"
    by (elim exE conjE)
  from fs al have ids: "i = 1" "alias_name = ''n''"
    by (auto simp: in_query_def alias_chain_def)
  have "fq_reference plain_identifier (reserved_keywords alias_chain) ?e = Some (''a'', ''x'')"
    by (simp add: fq_def alias_chain_def)
  moreover have "?e \<in> set (find_data ''fq_column'' ?e)"
    by (simp add: find_data_def fq_def)
  moreover have "map_of (aliased_tables (the_scope alias_chain 1)) ''a'' = Some ''b''"
    by (simp add: alias_chain_def the_scope_def)
  ultimately have "\<lparr>table = ''b'', column = ''x''\<rparr> \<in>
       {\<lparr>table = (case map_of (aliased_tables (the_scope alias_chain 1)) t of
                    Some x \<Rightarrow> x | None \<Rightarrow> t), column = c\<rparr> | t c.
          \<exists>n \<in> set (find_data ''fq_column'' ?e).
            fq_reference plain_identifier (reserved_keywords alias_chain) n = Some (t, c)}"
    by force
  with eq ids have "\<lparr>table = ''b'', column = ''x''\<rparr> \<in> recorded_columns alias_chain_recorded 1 ''n''"
    by blast
  with run show ?thesis by (simp add: column_as_def)
qed

theorem alias_chain_counterexample:
  "visit_all plain_identifier count_star (new_AliasCollector {})
     [query_node 1, table_as 1 ''c'' ''b'', table_as 1 ''b'' ''a''] = Inr alias_chain \<and>
   map_of (aliased_tables (the_scope alias_chain 1)) ''a'' = Some ''b'' \<and>
   map_of (aliased_tables (the_scope alias_chain 1)) ''b'' = Some ''c'' \<and>
   aliased_column plain_identifier count_star alias_chain (column_as 1 (fq ''a'' ''x'') ''n'')
     = Inr alias_chain_recorded \<and>
   lookup_columns alias_chain_recorded 1 ''n'' = Some (Some {\<lparr>table = ''b'', column = ''x''\<rparr>}) \<and>
   \<lparr>table = ''c'', column = ''x''\<rparr> \<notin> recorded_columns alias_chain_recorded 1 ''n''"
proof (intro conjI)
  show "visit_all plain_identifier count_star (new_AliasCollector {})
     [query_node 1, table_as 1 ''c'' ''b'', table_as 1 ''b'' ''a''] = Inr alias_chain"
    by (simp add: visit_node_def full_query_def query_node_def table_as_def aliased_table_def
        new_AliasCollector_def alias_chain_def in_query_def new_QueryAliases_def backfill_def
        alias_scope_def setdefault_def the_scope_def put_scope_def)
  show "map_of (aliased_tables (the_scope alias_chain 1)) ''a'' = Some ''b''"
    by (simp add: alias_chain_def the_scope_def)
  show "map_of (aliased_tables (the_scope alias_chain 1)) ''b'' = Some ''c''"
    by (simp add: alias_chain_def the_scope_def)
  show "aliased_column plain_identifier count_star alias_chain (column_as 1 (fq ''a'' ''x'') ''n'')
     = Inr alias_chain_recorded"
    by (simp add: aliased_column_def alias_chain_def column_as_def fq_def in_query_def
        alias_scope_def setdefault_def count_star_def find_data_def resolve_table_def
        the_scope_def put_scope_def dict_get_def columns_getitem_def columns_setitem_def
        set_add_def alias_chain_recorded_def)
  show "lookup_columns alias_chain_recorded 1 ''n'' =
      Some (Some {\<lparr>table = ''b'', column = ''x''\<rparr>})"
    by (simp add: lookup_columns_def alias_chain_recorded_def the_scope_def column_values_def)
  show "\<lparr>table = ''c'', column = ''x''\<rparr> \<notin> recorded_columns alias_chain_recorded 1 ''n''"
    by (simp add: recorded_columns_def lookup_columns_def alias_chain_recorded_def the_scope_def
        column_values_def)
qed

subsection \<open>Order of the table alias and the column alias\<close>

text \<open>
  C2, at a failing input. In the scope of
  \<^verbatim>\<open>SELECT a.c1 + x.c2 AS n FROM a AS x JOIN tbl AS a\<close> the table \<^verbatim>\<open>a\<close> has
  the alias \<^verbatim>\<open>x\<close>, and \<^verbatim>\<open>a\<close> is also the alias of \<^verbatim>\<open>tbl\<close>. If
  \<^verbatim>\<open>tbl AS a\<close> is visited before the column alias, \<^verbatim>\<open>n\<close> denotes
  \<^verbatim>\<open>tbl.c1\<close> and \<^verbatim>\<open>a.c2\<close>; if it is visited after, the backfill rewrites the
  already resolved \<^verbatim>\<open>a.c2\<close> as well and \<^verbatim>\<open>n\<close> denotes \<^verbatim>\<open>tbl.c1\<close>
  and \<^verbatim>\<open>tbl.c2\<close>.
\<close>

theorem backfill_order_dependence:
  "visit_all plain_identifier count_star (new_AliasCollector {})
     [query_node 1, table_as 1 ''a'' ''x'', table_as 1 ''tbl'' ''a'',
      column_as 1 (sum_of (fq ''a'' ''c1'') (fq ''x'' ''c2'')) ''n'']
     = Inr table_alias_first \<and>
   visit_all plain_identifier count_star (new_AliasCollector {})
     [query_node 1, table_as 1 ''a'' ''x'',
      column_as 1 (sum_of (fq ''a'' ''c1'') (fq ''x'' ''c2'')) ''n'', table_as 1 ''tbl'' ''a'']
     = Inr column_alias_first \<and>
   lookup_columns table_alias_first 1 ''n'' =
     Some (Some {\<lparr>table = ''tbl'', column = ''c1''\<rparr>, \<lparr>table = ''a'', column = ''c2''\<rparr>}) \<and>
   lookup_columns column_alias_first 1 ''n'' =
     Some (Some {\<lparr>table = ''tbl'', column = ''c1''\<rparr>, \<lparr>table = ''tbl'', column = ''c2''\<rparr>}) \<and>
   lookup_columns table_alias_first 1 ''n'' \<noteq> lookup_columns column_alias_first 1 ''n''"
proof -
  have a: "visit_all plain_identifier count_star (new_AliasCollector {})
     [query_node 1, table_as 1 ''a'' ''x'', table_as 1 ''tbl'' ''a'',
      column_as 1 (sum_of (fq ''a'' ''c1'') (fq ''x'' ''c2'')) ''n'']
     = Inr table_alias_first"
    by (simp add: visit_node_def full_query_def query_node_def table_as_def
        aliased_table_def new_AliasCollector_def in_query_def new_QueryAliases_def
        backfill_def backfill_set_def backfill_column_def alias_scope_def setdefault_def
        the_scope_def put_scope_def aliased_column_def column_as_def sum_of_def fq_def
        count_star_def find_data_def resolve_table_def dict_get_def columns_getitem_def
        columns_setitem_def set_add_def table_alias_first_def)
  have b: "visit_all plain_identifier count_star (new_AliasCollector {})
     [query_node 1, table_as 1 ''a'' ''x'',
      column_as 1 (sum_of (fq ''a'' ''c1'') (fq ''x'' ''c2'')) ''n'', table_as 1 ''tbl'' ''a'']
     = Inr column_alias_first"
    by (simp add: visit_node_def full_query_def query_node_def table_as_def
        aliased_table_def new_AliasCollector_def in_query_def new_QueryAliases_def
        backfill_def backfill_set_def backfill_column_def alias_scope_def setdefault_def
        the_scope_def put_scope_def aliased_column_def column_as_def sum_of_def fq_def
        count_star_def find_data_def resolve_table_def dict_get_def columns_getitem_def
        columns_setitem_def set_add_def column_alias_first_def)
  have c: "lookup_columns table_alias_first 1 ''n'' =
     Some (Some {\<lparr>table = ''tbl'', column = ''c1''\<rparr>, \<lparr>table = ''a'', column = ''c2''\<rparr>})"
    by (simp add: lookup_columns_def table_alias_first_def the_scope_def column_values_def)
  have d: "lookup_columns column_alias_first 1 ''n'' =
     Some (Some {\<lparr>table = ''tbl'', column = ''c1''\<rparr>, \<lparr>table = ''tbl'', column = ''c2''\<rparr>})"
    by (simp add: lookup_columns_def column_alias_first_def the_scope_def column_values_def)
  have e: "lookup_columns table_alias_first 1 ''n'' \<noteq> lookup_columns column_alias_first 1 ''n''"
    unfolding c d by (simp add: doubleton_eq_iff)
  from a b c d e show ?thesis by (intro conjI)
qed

subsection \<open>The single source table\<close>

text \<open>
  C8, at a failing input. After two queries with one source table each were traversed,
  \<^verbatim>\<open>_selected_table\<close> of both scopes is still \<^verbatim>\<open>None\<close>; the table of the
  query visited last is in the attribute of the collector itself, where it has replaced
  the table of the other query.
\<close>

theorem selected_table_is_collector_global:
  "visit_all plain_identifier count_star (new_AliasCollector {})
     [query_node 1, table_selected 1 ''t1'', query_node 2, table_selected 2 ''t2'']
     = Inr two_selected \<and>
   qa_selected_table (the_scope two_selected 1) = None \<and>
   qa_selected_table (the_scope two_selected 2) = None \<and>
   self_selected_table two_selected = Some ''t2''"
proof (intro conjI)
  show "visit_all plain_identifier count_star (new_AliasCollector {})
     [query_node 1, table_selected 1 ''t1'', query_node 2, table_selected 2 ''t2'']
     = Inr two_selected"
    by (simp add: visit_node_def full_query_def query_node_def table_selected_def
        selected_table_def new_AliasCollector_def two_selected_def setdefault_def)
  show "qa_selected_table (the_scope two_selected 1) = None"
    by (simp add: two_selected_def the_scope_def new_QueryAliases_def)
  show "qa_selected_table (the_scope two_selected 2) = None"
    by (simp add: two_selected_def the_scope_def new_QueryAliases_def)
  show "self_selected_table two_selected = Some ''t2''"
    by (simp add: two_selected_def)
qed

subsection \<open>Validation by one of several validators\<close>

lemma validate_None_iff: "validate v q = None \<longleftrightarrow> (\<forall>e \<in> set q. allowed v e)"
  by (induction q) auto

text \<open>
  C9. For a non-empty collection of validators, the query is accepted exactly when some
  validator of the collection allows every element the query touches; so one validator
  that accepts the whole query is enough, whatever the others find.
\<close>

theorem one_validator_suffices:
  assumes "vs \<noteq> []"
  shows "(evaluate vs q = Inr () \<longleftrightarrow> (\<exists>v \<in> set vs. \<forall>e \<in> set q. allowed v e)) \<and>
         (\<forall>w \<in> set vs. validate w q = None \<longrightarrow> evaluate vs q = Inr ())"
proof -
  have iff: "evaluate vs q = Inr () \<longleftrightarrow> (\<exists>v \<in> set vs. validate v q = None)"
    using assms
  proof (induction vs q rule: evaluate.induct)
    case (1 q)
    then show ?case by simp
  next
    case (2 v q)
    then show ?case by (simp split: option.splits)
  next
    case (3 v w vs q)
    then show ?case by (cases "validate v q") auto
  qed
  then show ?thesis by (auto simp: validate_None_iff)
qed

theorem one_validator_suffices_witness:
  "evaluate [only_table ''t1'', only_table ''t2'']
     [TouchedTable ''t2'', TouchedConditionColumn \<lparr>table = ''t2'', column = ''col''\<rparr>] = Inr () \<and>
   validate (only_table ''t1'')
     [TouchedTable ''t2'', TouchedConditionColumn \<lparr>table = ''t2'', column = ''col''\<rparr>]
     = Some (IllegalTable ''t2'')"
proof -
  let ?q = "[TouchedTable ''t2'', TouchedConditionColumn \<lparr>table = ''t2'', column = ''col''\<rparr>]"
  let ?vs = "[only_table ''t1'', only_table ''t2'']"
  have ne: "?vs \<noteq> []" by simp
  have acc: "validate (only_table ''t2'') ?q = None"
    by (simp add: only_table_def)
  have mem: "only_table ''t2'' \<in> set ?vs" by simp
  from one_validator_suffices [OF ne, of ?q] mem acc
  have "evaluate ?vs ?q = Inr ()" by blast
  moreover have "validate (only_table ''t1'') ?q = Some (IllegalTable ''t2'')"
    by (simp add: only_table_def)
  ultimately show ?thesis by simp
qed

subsection \<open>Aliases are recorded in the nearest scope only\<close>








subsection \<open>Visiting order when the table alias is new to the scope\<close>

lemma column_values_valid:
  assumes "\<forall>a \<in> set refs. a < length (heap s)" and "\<forall>a < length (heap s). heap t ! a = heap s ! a"
  shows "column_values t refs = column_values s refs"
  unfolding column_values_def using assms by (intro image_cong) auto

lemma lookup_columns_same_entries:
  assumes ok: "heap_ok s"
    and ent: "map_of (aliased_columns (the_scope t i)) al = map_of (aliased_columns (the_scope s i)) al"
    and hp: "\<forall>a < length (heap s). heap t ! a = heap s ! a"
  shows "lookup_columns t i al = lookup_columns s i al"
proof (cases "map_of (aliased_columns (the_scope s i)) al")
  case None
  with ent show ?thesis by (simp add: lookup_columns_def)
next
  case (Some v)
  show ?thesis
  proof (cases v)
    case None
    with Some ent show ?thesis by (simp add: lookup_columns_def)
  next
    case (Some refs)
    with \<open>map_of (aliased_columns (the_scope s i)) al = Some v\<close>
    have "set refs \<subseteq> scope_refs (the_scope s i)"
      by (simp add: scope_refs_def map_of_entries_refs)
    with ok have "\<forall>a \<in> set refs. a < length (heap s)"
      by (auto simp: heap_ok_def)
    from column_values_valid [OF this hp]
    show ?thesis
      using Some \<open>map_of (aliased_columns (the_scope s i)) al = Some v\<close> ent
      by (simp add: lookup_columns_def)
  qed
qed

lemma column_loop_others:
  assumes sc: "find_scope (meta_parent m) = Some i" and ne: "al' \<noteq> al"
  shows "heap_ok s \<Longrightarrow> column_loop gi (Tree d cs m) i al ns s b = Inr (b', s') \<Longrightarrow>
     lookup_columns s' i al' = lookup_columns s i al' \<and>
     subquery_aliases (the_scope s' i) = subquery_aliases (the_scope s i)"
proof (induction ns arbitrary: s b)
  case Nil
  then show ?case by simp
next
  case (Cons n ns)
  let ?node = "Tree d cs m"
  let ?s1 = "s\<lparr>query_aliases := setdefault i new_QueryAliases (query_aliases s)\<rparr>"
  let ?kw = "reserved_keywords s"
  have rt: "\<And>t. resolve_table s ?node t = Inr (dict_get (aliased_tables (the_scope s i)) t t, ?s1)"
    using sc by (simp add: resolve_table_def alias_scope_def)
  from Cons.prems(2) obtain d' cs' m' where n: "n = Tree d' cs' m'"
    by (cases n) auto
  from Cons.prems(2) n obtain tnode cnode where cs': "cs' = [tnode, cnode]"
    by (auto split: list.splits)
  from Cons.prems(2) n cs' obtain t where tn: "gi tnode ?kw = Inr t"
    by (auto split: sum.splits)
  from Cons.prems(2) n cs' tn obtain c where cn: "gi cnode ?kw = Inr c"
    by (auto split: sum.splits)
  obtain v s2 where gt: "columns_getitem i al ?s1 = (v, s2)"
    by (cases "columns_getitem i al ?s1")
  from Cons.prems(2) n cs' tn cn rt gt obtain refs where v: "v = Some refs"
    by (cases v) auto
  let ?c = "\<lparr>table = dict_get (aliased_tables (the_scope s i)) t t, column = c\<rparr>"
  let ?s3 = "columns_setitem i al (Some (snd (set_add (heap s2) refs ?c)))
               (s2\<lparr>heap := fst (set_add (heap s2) refs ?c)\<rparr>)"
  have rec: "column_loop gi ?node i al ns ?s3 True = Inr (b', s')"
    using Cons.prems(2) n cs' tn cn rt gt v by (simp add: split_beta Let_def)
  have s2: "s2 = snd (columns_getitem i al ?s1)" using gt by simp
  have st2: "scope_steps i s s2"
    unfolding s2 by (intro scope_steps.read_columns scope_steps.register scope_steps.same)
  have ent: "map_of (aliased_columns (the_scope s2 i)) al = Some (Some refs)"
    using columns_getitem_entry [OF gt] v by simp
  have st3: "scope_steps i s ?s3"
    using scope_steps.add_column [OF st2 ent] .
  have ok3: "heap_ok ?s3"
    using scope_steps_frame [OF st3 Cons.prems(1)] by simp
  have e3: "map_of (aliased_columns (the_scope ?s3 i)) al' =
      map_of (aliased_columns (the_scope s i)) al'"
    using ne by (auto simp: s2 update_conv' map_add_def split: option.splits)
  have h3: "\<forall>a < length (heap s). heap ?s3 ! a = heap s ! a"
    by (simp add: s2 nth_append)
  have l3: "lookup_columns ?s3 i al' = lookup_columns s i al'"
    using Cons.prems(1) e3 h3 by (rule lookup_columns_same_entries)
  have q3: "subquery_aliases (the_scope ?s3 i) = subquery_aliases (the_scope s i)"
    by (simp add: s2)
  from Cons.IH [OF ok3 rec] l3 q3 show ?case by simp
qed


lemma column_values_setitem [simp]:
  "column_values (columns_setitem i al v s) = column_values s"
  by (rule ext) (simp add: column_values_def)

lemma lookup_columns_setitem_other:
  "al' \<noteq> al \<Longrightarrow> lookup_columns (columns_setitem i al v s) i al' = lookup_columns s i al'"
  by (simp add: lookup_columns_def update_conv')

lemma aliased_column_others:
  assumes run: "aliased_column gi icf s (Tree d [value_node, as_token, alias_node] m) = Inr s'"
    and ok: "heap_ok s"
    and fs: "find_scope (meta_parent m) = Some i"
    and al: "gi alias_node (reserved_keywords s) = Inr n"
  shows "(\<forall>al'. al' \<noteq> n \<longrightarrow> lookup_columns s' i al' = lookup_columns s i al') \<and>
     aliased_tables (the_scope s' i) = aliased_tables (the_scope s i) \<and>
     subquery_aliases (the_scope s' i) = subquery_aliases (the_scope s i)"
proof -
  let ?node = "Tree d [value_node, as_token, alias_node] m"
  let ?s1 = "s\<lparr>query_aliases := setdefault i new_QueryAliases (query_aliases s)\<rparr>"
  have sc: "alias_scope s ?node = Inr (i, ?s1)"
    using fs by (simp add: alias_scope_def)
  have ok1: "heap_ok ?s1"
    using scope_steps_frame [OF scope_steps.register [OF scope_steps.same], of s i] ok by simp
  have l1: "\<And>al'. lookup_columns ?s1 i al' = lookup_columns s i al'"
    by (simp add: lookup_columns_def)
  show ?thesis
  proof (cases "icf value_node")
    case True
    with run sc al have "s' = columns_setitem i n None ?s1"
      by (simp add: aliased_column_def)
    then show ?thesis using l1 by (simp add: lookup_columns_setitem_other)
  next
    case nc: False
    from run sc al nc obtain d' cs' m' where vn: "value_node = Tree d' cs' m'"
      by (cases value_node) (auto simp: aliased_column_def)
    from run sc al nc vn obtain b s2 where
      lp: "column_loop gi ?node i n (find_data ''fq_column'' value_node) ?s1 False = Inr (b, s2)"
      and fin: "s' = (if \<not> b then columns_setitem i n None s2 else s2)"
      by (auto simp: aliased_column_def split: sum.splits if_splits)
    from column_loop_Inr [OF fs ok1 lp]
    have tab: "aliased_tables (the_scope s2 i) = aliased_tables (the_scope s i)" by simp
    have oth: "\<And>al'. al' \<noteq> n \<Longrightarrow> lookup_columns s2 i al' = lookup_columns s i al'"
      using column_loop_others [OF fs _ ok1 lp] l1 by simp
    have sub: "subquery_aliases (the_scope s2 i) = subquery_aliases (the_scope s i)"
      using column_loop_others [OF fs _ ok1 lp, of "CHR ''x'' # n"] by simp
    from fin tab oth sub show ?thesis
      by (simp add: lookup_columns_setitem_other)
  qed
qed

lemma aliased_table_lookup:
  assumes run: "aliased_table gi s (Tree d [table_node, as_token, alias_node] m) = Inr s'"
    and ok: "heap_ok s"
    and fs: "find_scope (meta_parent m) = Some i"
    and tn: "gi table_node (reserved_keywords s) = Inr tbl"
    and al: "gi alias_node (reserved_keywords s) = Inr a"
  shows "(\<forall>n. lookup_columns s' i n =
            map_option (map_option ((`) (backfill_column a tbl))) (lookup_columns s i n)) \<and>
     aliased_tables (the_scope s' i) = AList.update a tbl (aliased_tables (the_scope s i)) \<and>
     subquery_aliases (the_scope s' i) = subquery_aliases (the_scope s i) \<and>
     reserved_keywords s' = reserved_keywords s \<and> heap_ok s'"
proof -
  let ?node = "Tree d [table_node, as_token, alias_node] m"
  from run obtain d' tn' as' an' m' tbl' a' i' where
    "?node = Tree d' [tn', as', an'] m'"
    "gi tn' (reserved_keywords s) = Inr tbl'"
    "gi an' (reserved_keywords s) = Inr a'"
    "find_scope (meta_parent m') = Some i'"
    "s' = (put_scope i' ((the_scope s i')\<lparr>aliased_tables :=
                AList.update a' tbl' (aliased_tables (the_scope s i'))\<rparr>)
              (s\<lparr>query_aliases := setdefault i' new_QueryAliases (query_aliases s)\<rparr>))
              \<lparr>heap := backfill a' tbl' (aliased_columns (the_scope s i')) (heap s)\<rparr>"
    by (rule aliased_table_Inr)
  with fs tn al have s': "s' = (put_scope i ((the_scope s i)\<lparr>aliased_tables :=
                AList.update a tbl (aliased_tables (the_scope s i))\<rparr>)
              (s\<lparr>query_aliases := setdefault i new_QueryAliases (query_aliases s)\<rparr>))
              \<lparr>heap := backfill a tbl (aliased_columns (the_scope s i)) (heap s)\<rparr>"
    by simp
  have steps: "scope_steps i s (final_state (aliased_table gi s ?node))"
    using fs by (rule aliased_table_steps)
  have ok': "heap_ok s'"
    using scope_steps_frame [OF steps ok] run by simp
  have look: "\<And>n. lookup_columns s' i n =
            map_option (map_option ((`) (backfill_column a tbl))) (lookup_columns s i n)"
  proof -
    fix n
    show "lookup_columns s' i n =
            map_option (map_option ((`) (backfill_column a tbl))) (lookup_columns s i n)"
    proof (cases "map_of (aliased_columns (the_scope s i)) n")
      case None
      then show ?thesis by (simp add: lookup_columns_def s')
    next
      case (Some v)
      show ?thesis
      proof (cases v)
        case None
        with Some show ?thesis by (simp add: lookup_columns_def s')
      next
        case (Some refs)
        with \<open>map_of (aliased_columns (the_scope s i)) n = Some v\<close>
        have ent: "map_of (aliased_columns (the_scope s i)) n = Some (Some refs)" by simp
        then have sub: "set refs \<subseteq> entries_refs (aliased_columns (the_scope s i))"
          by (rule map_of_entries_refs)
        with ok have valid: "\<forall>r \<in> set refs. r < length (heap s)"
          by (auto simp: heap_ok_def scope_refs_def)
        have "column_values s' refs = backfill_column a tbl ` column_values s refs"
          unfolding column_values_def image_image
          using valid sub by (intro image_cong) (auto simp: s' backfill_nth)
        with ent show ?thesis by (simp add: lookup_columns_def s')
      qed
    qed
  qed
  from look ok' show ?thesis by (simp add: s')
qed


lemma scope_steps_keywords:
  "scope_steps i s t \<Longrightarrow> reserved_keywords t = reserved_keywords s"
  by (induction rule: scope_steps.induct) simp_all

lemma recorded_columns_map:
  assumes "lookup_columns t i n = map_option (map_option ((`) f)) (lookup_columns s i n)"
  shows "recorded_columns t i n = f ` recorded_columns s i n"
  using assms by (auto simp: recorded_columns_def split: option.splits)

lemma map_Some_inj: "map Some xs = map Some ys \<Longrightarrow> xs = ys"
  by (simp add: inj_map_eq_map)

text \<open>
  When the alias of a table-alias node is new to the scope, neither bound there nor the
  name of a table that an alias of the scope is bound to, and both visiting orders of the
  table-alias node and a column-alias node of the same scope return, they leave the same
  alias maps in that scope.
\<close>

lemma fresh_alias_order_independent:
  assumes ok: "heap_ok s"
    and fsT: "find_scope (meta_parent mT) = Some i"
    and fsC: "find_scope (meta_parent mC) = Some i"
    and tn: "gi table_node (reserved_keywords s) = Inr tbl"
    and al: "gi alias_node (reserved_keywords s) = Inr a"
    and unbound: "map_of (aliased_tables (the_scope s i)) a = None"
    and not_target: "\<forall>t. map_of (aliased_tables (the_scope s i)) t \<noteq> Some a"
    and T1: "aliased_table gi s (Tree dT [table_node, asT, alias_node] mT) = Inr sT"
    and C1: "aliased_column gi icf sT (Tree dC [value_node, asC, cnode] mC) = Inr sTC"
    and C2: "aliased_column gi icf s (Tree dC [value_node, asC, cnode] mC) = Inr sC"
    and T2: "aliased_table gi sC (Tree dT [table_node, asT, alias_node] mT) = Inr sCT"
  shows "(\<forall>n. lookup_columns sTC i n = lookup_columns sCT i n) \<and>
     aliased_tables (the_scope sTC i) = aliased_tables (the_scope sCT i) \<and>
     subquery_aliases (the_scope sTC i) = subquery_aliases (the_scope sCT i)"
proof -
  let ?bf = "backfill_column a tbl"
  let ?tabs = "aliased_tables (the_scope s i)"
  let ?ns = "find_data ''fq_column'' value_node"
  let ?kw = "reserved_keywords s"
  let ?resS = "\<lambda>(t, c). \<lparr>table = dict_get ?tabs t t, column = c\<rparr>"
  let ?resT = "\<lambda>(t, c). \<lparr>table = dict_get (AList.update a tbl ?tabs) t t, column = c\<rparr>"
  note T1f = aliased_table_lookup [OF T1 ok fsT tn al]
  then have okT: "heap_ok sT" and kwT: "reserved_keywords sT = ?kw"
    and tabT: "aliased_tables (the_scope sT i) = AList.update a tbl ?tabs"
    and lookT: "\<And>n. lookup_columns sT i n =
        map_option (map_option ((`) ?bf)) (lookup_columns s i n)"
    by simp_all
  have stC: "scope_steps i s (final_state (aliased_column gi icf s (Tree dC [value_node, asC, cnode] mC)))"
    using fsC by (rule aliased_column_steps)
  have okC: "heap_ok sC"
    using scope_steps_frame [OF stC ok] C2 by simp
  from aliased_column_Inr [OF C2 ok] fsC obtain n rs where
    n: "gi cnode ?kw = Inr n"
    and noneC: "icf value_node \<or> ?ns = [] \<longrightarrow> lookup_columns sC i n = Some None"
    and someC: "\<not> icf value_node \<and> ?ns \<noteq> [] \<longrightarrow>
       map (fq_reference gi ?kw) ?ns = map Some rs \<and>
       lookup_columns sC i n = Some (Some (recorded_columns s i n \<union> ?resS ` set rs))"
    by auto
  from aliased_column_Inr [OF C1 okT] fsC n kwT tabT obtain rs' where
    noneT: "icf value_node \<or> ?ns = [] \<longrightarrow> lookup_columns sTC i n = Some None"
    and someT: "\<not> icf value_node \<and> ?ns \<noteq> [] \<longrightarrow>
       map (fq_reference gi ?kw) ?ns = map Some rs' \<and>
       lookup_columns sTC i n = Some (Some (recorded_columns sT i n \<union> ?resT ` set rs'))"
    by auto
  note C2f = aliased_column_others [OF C2 ok fsC n]
  note C1f = aliased_column_others [OF C1 okT fsC n [folded kwT]]
  have kwC: "reserved_keywords sC = ?kw"
    using scope_steps_keywords [OF stC] C2 by simp
  note T2f = aliased_table_lookup [OF T2 okC fsT tn [folded kwC] al [folded kwC]]
  then have lookCT: "\<And>n. lookup_columns sCT i n =
        map_option (map_option ((`) ?bf)) (lookup_columns sC i n)"
    and tabCT: "aliased_tables (the_scope sCT i) = AList.update a tbl (aliased_tables (the_scope sC i))"
    and subCT: "subquery_aliases (the_scope sCT i) = subquery_aliases (the_scope sC i)"
    by simp_all
  have res: "\<And>t c. ?bf (?resS (t, c)) = ?resT (t, c)"
  proof -
    fix t c
    show "?bf (?resS (t, c)) = ?resT (t, c)"
    proof (cases "t = a")
      case True
      with unbound show ?thesis
        by (simp add: dict_get_def update_conv' backfill_column_def)
    next
      case False
      have "dict_get ?tabs t t \<noteq> a"
        using False not_target by (auto simp: dict_get_def split: option.splits)
      with False show ?thesis
        by (simp add: dict_get_def update_conv' backfill_column_def)
    qed
  qed
  have look: "\<And>k. lookup_columns sTC i k = lookup_columns sCT i k"
  proof -
    fix k
    show "lookup_columns sTC i k = lookup_columns sCT i k"
    proof (cases "k = n")
      case False
      with C1f C2f lookT [of k] lookCT [of k] show ?thesis by simp
    next
      case True
      show ?thesis
      proof (cases "icf value_node \<or> ?ns = []")
        case True
        with noneT noneC lookCT [of n] \<open>k = n\<close> show ?thesis by simp
      next
        case False
        with someT someC have m1: "map (fq_reference gi ?kw) ?ns = map Some rs'"
          and m2: "map (fq_reference gi ?kw) ?ns = map Some rs"
          and lT: "lookup_columns sTC i n =
              Some (Some (recorded_columns sT i n \<union> ?resT ` set rs'))"
          and lC: "lookup_columns sC i n = Some (Some (recorded_columns s i n \<union> ?resS ` set rs))"
          by simp_all
        from m1 m2 have rs: "rs' = rs" by (simp add: inj_map_eq_map)
        have rT: "recorded_columns sT i n = ?bf ` recorded_columns s i n"
          using lookT [of n] by (rule recorded_columns_map)
        have "?bf ` (?resS ` set rs) = ?resT ` set rs"
          unfolding image_image using res by (intro image_cong) auto
        then have "?bf ` (recorded_columns s i n \<union> ?resS ` set rs) =
            recorded_columns sT i n \<union> ?resT ` set rs"
          by (simp add: image_Un rT)
        with lT lC lookCT [of n] rs \<open>k = n\<close> show ?thesis by simp
      qed
    qed
  qed
  have "aliased_tables (the_scope sTC i) = aliased_tables (the_scope sCT i)"
    using C1f C2f tabT tabCT by simp
  moreover have "subquery_aliases (the_scope sTC i) = subquery_aliases (the_scope sCT i)"
    using C1f C2f T1f subCT by simp
  ultimately show ?thesis using look by simp
qed


lemma fresh_alias_order_independent_example:
  "lookup_columns (final_state (visit_all plain_identifier count_star (new_AliasCollector {})
        [table_as 1 ''rental'' ''r'', column_as 1 (fq ''r'' ''amt'') ''amt''])) 1 ''amt'' =
   lookup_columns (final_state (visit_all plain_identifier count_star (new_AliasCollector {})
        [column_as 1 (fq ''r'' ''amt'') ''amt'', table_as 1 ''rental'' ''r''])) 1 ''amt''"
proof -
  let ?s = "new_AliasCollector {}"
  let ?T = "Tree ''aliased_table'' [Token ''rental'', Token ''AS'', Token ''r'']
              (Meta 201 (in_query 1))"
  let ?C = "Tree ''aliased_column'' [fq ''r'' ''amt'', Token ''AS'', Token ''amt'']
              (Meta 401 (in_query 1))"
  let ?sT = "\<lparr>query_aliases =
        [(1, \<lparr>aliased_tables = [(''r'', ''rental'')], aliased_columns = [],
              qa_selected_table = None, subquery_aliases = []\<rparr>)],
      reserved_keywords = {}, self_selected_table = None, heap = []\<rparr>"
  have ok: "heap_ok ?s"
    by (simp add: heap_ok_def new_AliasCollector_def the_scope_def scope_refs_def
        entries_refs_def new_QueryAliases_def)
  have fsT: "find_scope (meta_parent (Meta 201 (in_query 1))) = Some 1"
    and fsC: "find_scope (meta_parent (Meta 401 (in_query 1))) = Some 1"
    by (simp_all add: in_query_def)
  have tn: "plain_identifier (Token ''rental'') (reserved_keywords ?s) = Inr ''rental''"
    and al: "plain_identifier (Token ''r'') (reserved_keywords ?s) = Inr ''r''"
    by (simp_all add: new_AliasCollector_def)
  have unbound: "map_of (aliased_tables (the_scope ?s 1)) ''r'' = None"
    and not_target: "\<forall>t. map_of (aliased_tables (the_scope ?s 1)) t \<noteq> Some ''r''"
    by (simp_all add: new_AliasCollector_def the_scope_def new_QueryAliases_def)
  have T1: "aliased_table plain_identifier ?s ?T = Inr ?sT"
    by (simp add: aliased_table_def new_AliasCollector_def in_query_def alias_scope_def
        setdefault_def the_scope_def put_scope_def backfill_def new_QueryAliases_def)
  have C1: "aliased_column plain_identifier count_star ?sT ?C = Inr amt_backfilled"
    by (simp add: aliased_column_def fq_def in_query_def alias_scope_def setdefault_def
        count_star_def find_data_def resolve_table_def the_scope_def put_scope_def dict_get_def
        columns_getitem_def columns_setitem_def set_add_def amt_backfilled_def)
  have C2: "aliased_column plain_identifier count_star ?s ?C = Inr amt_recorded"
    by (simp add: aliased_column_def fq_def in_query_def alias_scope_def setdefault_def
        count_star_def find_data_def resolve_table_def the_scope_def put_scope_def dict_get_def
        columns_getitem_def columns_setitem_def set_add_def amt_recorded_def
        new_AliasCollector_def new_QueryAliases_def)
  have T2: "aliased_table plain_identifier amt_recorded ?T = Inr amt_backfilled"
    by (simp add: aliased_table_def amt_recorded_def in_query_def alias_scope_def
        setdefault_def the_scope_def put_scope_def backfill_def backfill_set_def
        backfill_column_def amt_backfilled_def)
  from fresh_alias_order_independent [OF ok fsT fsC tn al unbound not_target T1 C1 C2 T2]
  have "lookup_columns amt_backfilled 1 ''amt'' = lookup_columns amt_backfilled 1 ''amt''"
    by blast
  moreover have "visit_all plain_identifier count_star ?s
        [table_as 1 ''rental'' ''r'', column_as 1 (fq ''r'' ''amt'') ''amt''] = Inr amt_backfilled"
    using T1 C1 by (simp add: visit_node_def table_as_def column_as_def fq_def)
  moreover have "visit_all plain_identifier count_star ?s
        [column_as 1 (fq ''r'' ''amt'') ''amt'', table_as 1 ''rental'' ''r''] = Inr amt_backfilled"
    using T2 C2 by (simp add: visit_node_def table_as_def column_as_def fq_def)
  ultimately show ?thesis by simp
qed

end
